theory Spec2Isabelle
  imports Complex_Main "HOL-Library.Multiset"
begin

section \<open>Text: the Python string operations the services use\<close>

text \<open>
  A text is a \<^typ>\<open>string\<close>: a list of 8-bit characters, read as the Unicode code points
  below 256.  On that range \<open>str.lower\<close> changes exactly the ASCII capitals and the Latin-1
  capitals \<open>0xC0..0xDE\<close> (without the multiplication sign \<open>0xD7\<close>), each by adding 32, and
  \<open>str.isspace\<close> holds of the twelve code points listed in \<open>isspace\<close>.
\<close>

definition lower_char :: "char \<Rightarrow> char" where
  "lower_char c =
     (let n = (of_char c :: nat) in
      if (65 \<le> n \<and> n \<le> 90) \<or> (192 \<le> n \<and> n \<le> 214) \<or> (216 \<le> n \<and> n \<le> 222)
      then char_of (n + 32) else c)"

definition lower :: "string \<Rightarrow> string" where
  "lower s = map lower_char s"

definition isspace :: "char \<Rightarrow> bool" where
  "isspace c = ((of_char c :: nat) \<in> {9, 10, 11, 12, 13, 28, 29, 30, 31, 32, 133, 160})"

text \<open>
  \<open>s.split()\<close> without a separator: the maximal runs of non-space characters, in order;
  no empty word is produced.  \<open>split_from w s\<close> scans \<open>s\<close> with the word \<open>w\<close> read so far.
\<close>

fun split_from :: "string \<Rightarrow> string \<Rightarrow> string list" where
  "split_from w [] = (if w = [] then [] else [w])"
| "split_from w (c # cs) =
     (if isspace c then (if w = [] then split_from [] cs else w # split_from [] cs)
      else split_from (w @ [c]) cs)"

definition split :: "string \<Rightarrow> string list" where
  "split s = split_from [] s"

text \<open>\<open>sub in s\<close> on strings: \<open>sub\<close> occurs in \<open>s\<close> as a contiguous block.\<close>

fun starts_with :: "string \<Rightarrow> string \<Rightarrow> bool" where
  "starts_with [] s = True"
| "starts_with (a # as) [] = False"
| "starts_with (a # as) (c # cs) = (a = c \<and> starts_with as cs)"

fun str_in :: "string \<Rightarrow> string \<Rightarrow> bool" where
  "str_in sub [] = (sub = [])"
| "str_in sub (c # cs) = (starts_with sub (c # cs) \<or> str_in sub cs)"


section \<open>Binary floating point\<close>

text \<open>
  Python's \<open>float\<close> and NumPy's \<open>float64\<close> are the IEEE 754 binary64 numbers.  A finite
  one is a real \<open>m * 2 ^ k\<close> with \<open>\<bar>m\<bar> < 2 ^ 53\<close> and \<open>- 1074 \<le> k\<close>, and every arithmetic
  operation returns the number of that form nearest to its exact result, a tie going to
  the even \<open>m\<close>.

  \<open>round_half_even\<close> is the integer nearest to a real, a tie going to the even one.
  \<open>exponent x\<close> is the binary exponent of \<open>x\<close>, not below the exponent \<open>- 1022\<close> of the
  smallest normal number; \<open>ulp x\<close> is the distance between the binary64 numbers around
  \<open>x\<close>; \<open>to_double x\<close> is the multiple of \<open>ulp x\<close> nearest to \<open>x\<close>, that is, \<open>x\<close> rounded to
  binary64.  The two zeros of binary64 are not told apart, and \<open>to_double\<close> has no largest
  number: overflow to an infinity is added where it can happen, in \<open>fl\<close> below.
\<close>

definition round_half_even :: "real \<Rightarrow> int" where
  "round_half_even y =
     (let f = \<lfloor>y\<rfloor>; d = y - of_int f in
      if d < 1 / 2 then f
      else if 1 / 2 < d then f + 1
      else if even f then f else f + 1)"

definition exponent :: "real \<Rightarrow> int" where
  "exponent x = max \<lfloor>log 2 \<bar>x\<bar>\<rfloor> (- 1022)"

definition ulp :: "real \<Rightarrow> real" where
  "ulp x = 2 powr of_int (exponent x - 52)"

definition to_double :: "real \<Rightarrow> real" where
  "to_double x = (if x = 0 then 0 else of_int (round_half_even (x / ulp x)) * ulp x)"


section \<open>The pronunciation service (apps/backend/src/services/pronunciation.py)\<close>

text \<open>
  The message texts of the service are Vietnamese; they are written here without their
  diacritics.  No property below depends on the wording of a message, only on which
  message is emitted.
\<close>

record PhonemeResult =
  phoneme :: string
  score :: real
  expected :: string
  actual :: string
  suggestion :: "string option"

record PronunciationScore =
  overall :: real
  accuracy :: real
  fluency :: real
  completeness :: real

record PronunciationFeedback =
  phonemes :: "PhonemeResult list"
  suggestions :: "string list"
  vietnamese_interference :: "string list option"

text \<open>
  \<open>round(x, 1)\<close> on a float is correctly rounded: of the exact value of \<open>x\<close> the nearest
  multiple of one tenth, a tie going to the even tenth, and of that decimal the nearest
  float.
\<close>

definition round1 :: "real \<Rightarrow> real" where
  "round1 x = to_double (of_int (round_half_even (x * 10)) / 10)"

text \<open>
  \<open>_calculate_scores\<close>.  The similarity is \<open>difflib.SequenceMatcher(None, a, b).ratio()\<close>,
  a library function: it is the parameter \<open>ratio\<close>.  The audio is not used by the body.
  Each product is a float product, the exact product rounded to binary64; \<open>100\<close> is exact,
  the literals \<open>0.95\<close> and \<open>0.9\<close> are the floats nearest to them.  A similarity lies
  between \<open>0\<close> and \<open>1\<close>, so that no product leaves the finite range.
\<close>

definition calculate_scores :: "(string \<Rightarrow> string \<Rightarrow> real) \<Rightarrow> string \<Rightarrow> string \<Rightarrow> PronunciationScore" where
  "calculate_scores ratio reference_text transcription =
     (let similarity = ratio (lower reference_text) (lower transcription);
          overall_raw = to_double (similarity * 100);
          accuracy_raw = to_double (overall_raw * to_double 0.95);
          fluency_raw = to_double (overall_raw * to_double 0.9);
          completeness_raw = to_double (similarity * 100)
      in \<lparr>overall = round1 overall_raw,
          accuracy = round1 accuracy_raw,
          fluency = round1 fluency_raw,
          completeness = round1 completeness_raw\<rparr>)"

definition vietnamese_issues :: "string \<rightharpoonup> string" where
  "vietnamese_issues = map_of
     [(''th'', ''Nguoi Viet thuong phat am 'th' nhu 't'. Hay dat luoi giua hai ham rang.''),
      (''s'', ''Am 's' cuoi tu can ro rang, dung bo qua.''),
      (''ed'', ''Duoi '-ed' co 3 cach phat am: /t/, /d/, /Id/''),
      (''r'', ''Am 'r' trong tieng Anh khac voi tieng Viet. Uon cong luoi ve phia sau.'')]"

definition suggestion_slow_down :: string where
  "suggestion_slow_down = ''Hay noi cham hon va ro rang hon.''"

definition suggestion_no_pauses :: string where
  "suggestion_no_pauses = ''Co gang noi lien mach, khong ngat quang giua cac tu.''"

text \<open>
  \<open>_generate_feedback\<close>.  The three lists start empty; \<open>phonemes\<close> is never appended to;
  an empty interference list is returned as \<open>None\<close>.
\<close>

definition generate_feedback :: "string \<Rightarrow> string \<Rightarrow> PronunciationScore \<Rightarrow> PronunciationFeedback" where
  "generate_feedback reference_text transcription sc =
     (let phonemes0 = [];
          suggestions0 = [];
          interference0 = [];
          suggestions1 = (if overall sc < 70 then suggestions0 @ [suggestion_slow_down] else suggestions0);
          suggestions2 = (if fluency sc < 60 then suggestions1 @ [suggestion_no_pauses] else suggestions1);
          ref_lower = lower reference_text;
          interference1 = (if str_in ''th'' ref_lower
                           then interference0 @ [the (vietnamese_issues ''th'')] else interference0)
      in \<lparr>phonemes = phonemes0,
          suggestions = suggestions2,
          vietnamese_interference = (if interference1 \<noteq> [] then Some interference1 else None)\<rparr>)"


section \<open>The phoneme feedback tool (mcp/src/tools.py)\<close>

record interference_pattern =
  ipa :: string
  common_error :: string
  tip :: string
  examples :: "string list"

text \<open>
  The table \<open>vietnamese_interference\<close> of \<open>get_phoneme_feedback_tool\<close> (named
  \<open>interference_table\<close> here, the other name being a field of the feedback record).
  IPA symbols and arrows are spelled out in ASCII.
\<close>

definition interference_table :: "string \<rightharpoonup> interference_pattern" where
  "interference_table = map_of
     [(''th'',
       \<lparr>ipa = ''theta'', common_error = ''t or s'',
        tip = ''Am 'th' khong co trong tieng Viet. Dat dau luoi giua hai ham rang va thoi hoi nhe.'',
        examples = [''think -> tink (sai)'', ''three -> tree (sai)'']\<rparr>),
      (''r'',
       \<lparr>ipa = ''turned r'', common_error = ''l or flap'',
        tip = ''Am 'r' tieng Anh khac tieng Viet. Uon cong luoi ve phia sau, khong cham vao noi nao.'',
        examples = [''red -> led (sai)'', ''right -> light (sai)'']\<rparr>),
      (''final_consonants'',
       \<lparr>ipa = ''various'', common_error = ''dropping'',
        tip = ''Nguoi Viet hay bo am cuoi. Hay phat am ro rang cac phu am cuoi nhu -t, -d, -s.'',
        examples = [''cat -> ca (sai)'', ''dogs -> dog (sai)'']\<rparr>),
      (''short_vowels'',
       \<lparr>ipa = ''I, U, ae'', common_error = ''lengthening'',
        tip = ''Phan biet nguyen am ngan va dai. 'ship' khac 'sheep'.'',
        examples = [''ship vs sheep'', ''full vs fool'']\<rparr>)]"

text \<open>The dictionary the tool serialises with \<open>json.dumps\<close>.\<close>

record phoneme_feedback =
  success :: bool
  input_text :: string
  phoneme_count :: nat
  vietnamese_specific_tips :: "interference_pattern list"
  practice_suggestions :: "string list"

definition get_phoneme_feedback_tool :: "string \<Rightarrow> string list option \<Rightarrow> phoneme_feedback" where
  "get_phoneme_feedback_tool text_arg detected_phonemes =
     (let relevant_tips0 = [];
          text_lower = lower text_arg;
          relevant_tips1 = (if str_in ''th'' text_lower
                            then relevant_tips0 @ [the (interference_table ''th'')] else relevant_tips0);
          relevant_tips2 = (if str_in ''r'' text_lower
                            then relevant_tips1 @ [the (interference_table ''r'')] else relevant_tips1);
          relevant_tips3 = relevant_tips2 @ [the (interference_table ''final_consonants'')]
      in \<lparr>success = True,
          input_text = text_arg,
          phoneme_count = length (split text_arg),
          vietnamese_specific_tips = relevant_tips3,
          practice_suggestions =
            [''Nghe va bat chuoc nguoi ban xu'',
             ''Thu am giong minh va so sanh'',
             ''Tap trung vao mot am kho tai mot thoi diem'']\<rparr>)"


section \<open>The evaluation script (ai-core/scripts/evaluate.py)\<close>

subsection \<open>NumPy arithmetic\<close>

text \<open>
  \<open>calculate_gop_metrics\<close> is written with NumPy.  Its arrays hold finite \<open>float64\<close>
  scores, given by their real values; a result of NumPy arithmetic is a finite number, an
  infinity or not-a-number.  \<open>fl\<close> is the result of an operation whose exact value is
  \<open>x\<close>: \<open>x\<close> rounded to binary64, or the infinity of its sign when the rounded value is
  beyond the largest binary64 number.  Division by zero and the other invalid operations
  do not raise in NumPy: they yield \<open>inf\<close> or \<open>nan\<close> (with a warning).  Negation, the
  absolute value and clipping are exact.

  \<open>np_sum\<close> adds the elements from left to right, each addition rounded, which is the
  order of NumPy for an array of fewer than eight elements; a longer array NumPy adds in
  another order.  The number of elements is exact as a float.
\<close>

datatype npfloat = Fin real | PInf | NInf | NaN


definition fl :: "real \<Rightarrow> npfloat" where
  "fl x = (let y = to_double x in
           if 2 ^ 1024 \<le> \<bar>y\<bar> then (if 0 < x then PInf else NInf) else Fin y)"















subsection \<open>GOP metrics\<close>



subsection \<open>Phoneme accuracy\<close>

text \<open>
  \<open>calculate_phoneme_accuracy\<close>: the loop over \<open>zip(predicted, ground_truth)\<close> is a left
  fold of \<open>accuracy_step\<close> over the two counters.
\<close>

definition accuracy_step :: "nat \<times> nat \<Rightarrow> string list \<times> string list \<Rightarrow> nat \<times> nat" where
  "accuracy_step acc pg =
     (case acc of (total_correct, total_phonemes) \<Rightarrow>
      case pg of (pred, gt) \<Rightarrow>
        (let min_len = min (length pred) (length gt)
         in (total_correct
               + length (filter (\<lambda>(p, g). p = g) (zip (take min_len pred) (take min_len gt))),
             total_phonemes + length gt)))"

definition calculate_phoneme_accuracy :: "string list list \<Rightarrow> string list list \<Rightarrow> real" where
  "calculate_phoneme_accuracy predicted_phonemes ground_truth_phonemes =
     (case foldl accuracy_step (0, 0) (zip predicted_phonemes ground_truth_phonemes) of
        (total_correct, total_phonemes) \<Rightarrow>
          if total_phonemes > 0 then real total_correct / real total_phonemes else 0)"

subsection \<open>Word error rate\<close>

text \<open>
  The table \<open>dp\<close> of \<open>calculate_word_error_rate\<close> is a list of rows; \<open>dp[i][j] = v\<close> is
  \<open>set_cell\<close>.  Every index the loops use is inside the table.
\<close>

definition set_cell :: "nat list list \<Rightarrow> nat \<Rightarrow> nat \<Rightarrow> nat \<Rightarrow> nat list list" where
  "set_cell dp i j v = dp[i := (dp ! i)[j := v]]"

definition empty_table :: "nat \<Rightarrow> nat \<Rightarrow> nat list list" where
  "empty_table m n = map (\<lambda>_. replicate (n + 1) 0) [0..<m + 1]"

definition fill_cell :: "'a list \<Rightarrow> 'a list \<Rightarrow> nat list list \<Rightarrow> nat \<Rightarrow> nat \<Rightarrow> nat list list" where
  "fill_cell ref_words hyp_words dp i j =
     (if ref_words ! (i - 1) = hyp_words ! (j - 1)
      then set_cell dp i j (dp ! (i - 1) ! (j - 1))
      else set_cell dp i j
             (1 + min (dp ! (i - 1) ! j) (min (dp ! i ! (j - 1)) (dp ! (i - 1) ! (j - 1)))))"

definition edit_table :: "'a list \<Rightarrow> 'a list \<Rightarrow> nat list list" where
  "edit_table ref_words hyp_words =
     (let m = length ref_words;
          n = length hyp_words;
          dp0 = empty_table m n;
          dp1 = foldl (\<lambda>dp i. set_cell dp i 0 i) dp0 [0..<m + 1];
          dp2 = foldl (\<lambda>dp j. set_cell dp 0 j j) dp1 [0..<n + 1]
      in foldl (\<lambda>dp i. foldl (\<lambda>dp j. fill_cell ref_words hyp_words dp i j) dp [1..<n + 1])
           dp2 [1..<m + 1])"

text \<open>The value \<open>dp[m][n]\<close> that the loop body adds to \<open>total_wer\<close>.\<close>

definition edit_distance :: "'a list \<Rightarrow> 'a list \<Rightarrow> nat" where
  "edit_distance ref_words hyp_words =
     edit_table ref_words hyp_words ! length ref_words ! length hyp_words"

definition wer_step :: "real \<times> nat \<Rightarrow> string \<times> string \<Rightarrow> real \<times> nat" where
  "wer_step acc hr =
     (case acc of (total_wer, total_words) \<Rightarrow>
      case hr of (hyp, ref) \<Rightarrow>
        (let hyp_words = split (lower hyp);
             ref_words = split (lower ref);
             m = length ref_words
         in (total_wer + real (edit_distance ref_words hyp_words), total_words + m)))"

definition calculate_word_error_rate :: "string list \<Rightarrow> string list \<Rightarrow> real" where
  "calculate_word_error_rate hypotheses references =
     (case foldl wer_step (0, 0) (zip hypotheses references) of
        (total_wer, total_words) \<Rightarrow>
          if total_words > 0 then total_wer / real total_words else 0)"

subsection \<open>Error analysis\<close>

text \<open>
  A Python dictionary from strings to integers keeps its keys in insertion order: it is an
  association list with distinct keys.  Assigning to a key that is present replaces the
  value in place; a new key goes to the end.
\<close>

definition dict_get :: "(string \<times> int) list \<Rightarrow> string \<Rightarrow> int \<Rightarrow> int" where
  "dict_get d k dflt = (case map_of d k of None \<Rightarrow> dflt | Some v \<Rightarrow> v)"

fun dict_set :: "(string \<times> int) list \<Rightarrow> string \<Rightarrow> int \<Rightarrow> (string \<times> int) list" where
  "dict_set [] k v = [(k, v)]"
| "dict_set ((k', v') # d) k v = (if k' = k then (k, v) # d else (k', v') # dict_set d k v)"

text \<open>\<open>phoneme_errors[error_key] = phoneme_errors.get(error_key, 0) + 1\<close>\<close>

definition bump :: "(string \<times> int) list \<Rightarrow> string \<Rightarrow> (string \<times> int) list" where
  "bump phoneme_errors error_key =
     dict_set phoneme_errors error_key (dict_get phoneme_errors error_key 0 + 1)"

text \<open>The key of a mismatch, the formatted string \<open>f"{g}->{p}"\<close>.\<close>

definition error_key_of :: "string \<times> string \<Rightarrow> string" where
  "error_key_of pg = (case pg of (p, g) \<Rightarrow> g @ ''->'' @ p)"

definition count_error :: "(string \<times> int) list \<Rightarrow> string \<times> string \<Rightarrow> (string \<times> int) list" where
  "count_error phoneme_errors pg =
     (case pg of (p, g) \<Rightarrow>
        if p \<noteq> g then bump phoneme_errors (error_key_of (p, g)) else phoneme_errors)"

text \<open>
  A prediction or ground-truth record is a dictionary; the analysis reads one key,
  \<open>d.get("phonemes", [])\<close>.
\<close>

definition get_phonemes :: "(string \<rightharpoonup> string list) \<Rightarrow> string list" where
  "get_phonemes d = (case d ''phonemes'' of None \<Rightarrow> [] | Some ps \<Rightarrow> ps)"

definition analyse_utterance ::
  "(string \<times> int) list \<Rightarrow> (string \<rightharpoonup> string list) \<times> (string \<rightharpoonup> string list) \<Rightarrow> (string \<times> int) list" where
  "analyse_utterance phoneme_errors pgt =
     (case pgt of (pred, gt) \<Rightarrow>
        (let pred_phonemes = get_phonemes pred;
             gt_phonemes = get_phonemes gt
         in foldl count_error phoneme_errors (zip pred_phonemes gt_phonemes)))"

record error_analysis =
  vietnamese_specific :: "(string \<times> int) list"
  top_phoneme_errors :: "(string \<times> int) list"

text \<open>
  \<open>generate_error_analysis\<close>.  \<open>sorted\<close> is stable, as \<open>sort_key\<close> is; the key of the sort
  is the negated count.  \<open>error_patterns\<close> is built once and returned as it is.
\<close>

definition generate_error_analysis ::
  "(string \<rightharpoonup> string list) list \<Rightarrow> (string \<rightharpoonup> string list) list \<Rightarrow> error_analysis" where
  "generate_error_analysis predictions ground_truths =
     (let error_patterns =
            [(''th_errors'', 0), (''r_errors'', 0),
             (''final_consonant_errors'', 0), (''vowel_length_errors'', 0)];
          phoneme_errors = foldl analyse_utterance [] (zip predictions ground_truths);
          top_errors = take 10 (sort_key (\<lambda>x. - snd x) phoneme_errors)
      in \<lparr>vietnamese_specific = error_patterns, top_phoneme_errors = top_errors\<rparr>)"


section \<open>Reference notions the properties are stated with\<close>

text \<open>
  The unit-cost Levenshtein distance of two sequences, by its textbook recursion: drop a
  symbol of the first, drop a symbol of the second, or match the two heads at cost \<open>0\<close>
  when they are equal and \<open>1\<close> when they differ.
\<close>

fun levenshtein :: "'a list \<Rightarrow> 'a list \<Rightarrow> nat" where
  "levenshtein [] ys = length ys"
| "levenshtein xs [] = length xs"
| "levenshtein (x # xs) (y # ys) =
     min (min (levenshtein xs (y # ys) + 1) (levenshtein (x # xs) ys + 1))
         (levenshtein xs ys + (if x = y then 0 else 1))"

text \<open>The number of positions, within the shorter length, at which two sequences agree.\<close>

definition positional_matches :: "'a list \<Rightarrow> 'a list \<Rightarrow> nat" where
  "positional_matches pred gt =
     length (filter (\<lambda>i. pred ! i = gt ! i) [0..<min (length pred) (length gt)])"

text \<open>
  The mismatching (predicted, ground truth) pairs of a corpus in the order the loops meet
  them: utterance by utterance, position by position, each utterance cut to the shorter of
  its two sequences.
\<close>

definition mismatches ::
  "(string \<rightharpoonup> string list) list \<Rightarrow> (string \<rightharpoonup> string list) list \<Rightarrow> (string \<times> string) list" where
  "mismatches predictions ground_truths =
     concat (map (\<lambda>(pred, gt). filter (\<lambda>(p, g). p \<noteq> g) (zip (get_phonemes pred) (get_phonemes gt)))
                 (zip predictions ground_truths))"

text \<open>The distinct elements of a list in the order of their first occurrence.\<close>

definition first_seen :: "'a list \<Rightarrow> 'a list" where
  "first_seen ks = rev (remdups (rev ks))"

text \<open>Each key with the number of its occurrences, the keys in first-seen order.\<close>

definition tally :: "'a list \<Rightarrow> ('a \<times> int) list" where
  "tally ks = map (\<lambda>k. (k, int (count_list ks k))) (first_seen ks)"



text \<open>
  Invariants of the table loops: the shape of the table, the rows that are complete, and
  the part of the current row that is.
\<close>

definition table_ok :: "nat \<Rightarrow> nat \<Rightarrow> nat list list \<Rightarrow> bool" where
  "table_ok m n dp \<longleftrightarrow> length dp = m + 1 \<and> (\<forall>i\<le>m. length (dp ! i) = n + 1)"

definition rows_done :: "'a list \<Rightarrow> 'a list \<Rightarrow> nat \<Rightarrow> nat list list \<Rightarrow> bool" where
  "rows_done r h i dp \<longleftrightarrow>
     table_ok (length r) (length h) dp
     \<and> (\<forall>a\<le>length r. dp ! a ! 0 = a)
     \<and> (\<forall>a<i. \<forall>b\<le>length h. dp ! a ! b = levenshtein (take a r) (take b h))"

definition row_part :: "'a list \<Rightarrow> 'a list \<Rightarrow> nat \<Rightarrow> nat \<Rightarrow> nat list list \<Rightarrow> bool" where
  "row_part r h i j dp \<longleftrightarrow>
     rows_done r h i dp \<and> (\<forall>b<j. dp ! i ! b = levenshtein (take i r) (take b h))"


section \<open>Properties of the feedback\<close>

lemma issue_th_present:
  "vietnamese_issues ''th'' =
     Some ''Nguoi Viet thuong phat am 'th' nhu 't'. Hay dat luoi giua hai ham rang.''"
  by (simp add: vietnamese_issues_def)

lemma lower_hello: "lower ''hello'' = ''hello''"
  by code_simp

lemma lower_think: "lower ''Think'' = ''think''"
  by code_simp

lemma lower_cat: "lower ''Cat'' = ''cat''"
  by code_simp

text \<open>
  C10.  Whatever the reference text, the transcription and the score are, the feedback of
  the pronunciation service carries an empty \<open>phonemes\<close> list.
\<close>

theorem feedback_phonemes_empty:
  "phonemes (generate_feedback reference_text transcription sc) = []"
  by (simp add: generate_feedback_def Let_def)

text \<open>
  C6.  When the lowercased reference text contains \<open>th\<close>, the service returns an
  interference list that is present (not \<open>None\<close>) and holds the \<open>th\<close> message, and the
  tool's tip list holds the \<open>th\<close> entry of its table.
\<close>

theorem th_reference_yields_th_tip:
  "str_in ''th'' (lower reference_text) \<Longrightarrow>
     (\<exists>tips. vietnamese_interference (generate_feedback reference_text transcription sc) = Some tips
          \<and> the (vietnamese_issues ''th'') \<in> set tips)
     \<and> the (interference_table ''th'')
          \<in> set (vietnamese_specific_tips (get_phoneme_feedback_tool reference_text detected))"
  by (simp add: generate_feedback_def get_phoneme_feedback_tool_def Let_def)

theorem th_reference_yields_th_tip_witness:
  "str_in ''th'' (lower ''Think'')
   \<and> (\<exists>tips. vietnamese_interference
         (generate_feedback ''Think'' ''tink'' \<lparr>overall = 80, accuracy = 76, fluency = 72, completeness = 80\<rparr>)
           = Some tips \<and> the (vietnamese_issues ''th'') \<in> set tips)
   \<and> the (interference_table ''th'')
         \<in> set (vietnamese_specific_tips (get_phoneme_feedback_tool ''Think'' None))"
proof -
  have h: "str_in ''th'' (lower ''Think'')"
    by (simp add: lower_think)
  show ?thesis
    using h th_reference_yields_th_tip [OF h] by blast
qed

text \<open>
  C2, as the code has it.  The tool closes its tip list with the final-consonants entry
  for every text, so that list is never empty.  The pronunciation service has no such
  rule: when the lowercased reference text does not contain \<open>th\<close> its interference field
  is \<open>None\<close>.
\<close>

theorem final_consonant_tip_tool_only:
  "vietnamese_specific_tips (get_phoneme_feedback_tool text_arg detected) \<noteq> []
   \<and> last (vietnamese_specific_tips (get_phoneme_feedback_tool text_arg detected))
       = the (interference_table ''final_consonants'')
   \<and> (\<not> str_in ''th'' (lower reference_text)
        \<longrightarrow> vietnamese_interference (generate_feedback reference_text transcription sc) = None)"
  by (simp add: generate_feedback_def get_phoneme_feedback_tool_def Let_def)

theorem final_consonant_tip_tool_only_witness:
  "\<not> str_in ''th'' (lower ''Cat'')
   \<and> last (vietnamese_specific_tips (get_phoneme_feedback_tool ''Cat'' None))
       = the (interference_table ''final_consonants'')
   \<and> vietnamese_interference
       (generate_feedback ''Cat'' ''cat'' \<lparr>overall = 100, accuracy = 95, fluency = 90, completeness = 100\<rparr>)
       = None"
proof -
  have h: "\<not> str_in ''th'' (lower ''Cat'')"
    by (simp add: lower_cat)
  show ?thesis
    using h final_consonant_tip_tool_only [of "''Cat''" None "''Cat''" "''cat''"
        "\<lparr>overall = 100, accuracy = 95, fluency = 90, completeness = 100\<rparr>"]
    by blast
qed

text \<open>
  The claim as the specification words it fails on the service: for the reference text
  \<open>hello\<close> no interference list is produced at all.
\<close>

theorem service_no_always_tip_counterexample:
  "vietnamese_interference
     (generate_feedback ''hello'' ''hello'' \<lparr>overall = 100, accuracy = 95, fluency = 90, completeness = 100\<rparr>)
     = None"
  by (simp add: generate_feedback_def Let_def lower_hello)


section \<open>Rounding to binary64\<close>

text \<open>
  \<open>to_double\<close> leaves the binary64 numbers unchanged, returns one of them, the nearest,
  is monotone, and where its argument is not below the smallest normal number its
  relative error is at most \<open>2 ^ - 53\<close>.
\<close>

lemma round_half_even_mono: "x \<le> y \<Longrightarrow> round_half_even x \<le> round_half_even y"
proof -
  assume xy: "x \<le> y"
  have fl: "\<lfloor>x\<rfloor> \<le> \<lfloor>y\<rfloor>" using xy by (rule floor_mono)
  show ?thesis
  proof (cases "\<lfloor>x\<rfloor> = \<lfloor>y\<rfloor>")
    case True
    then show ?thesis
      using xy by (auto simp: round_half_even_def Let_def)
  next
    case False
    then have "\<lfloor>x\<rfloor> + 1 \<le> \<lfloor>y\<rfloor>" using fl by simp
    moreover have "round_half_even x \<le> \<lfloor>x\<rfloor> + 1"
      by (simp add: round_half_even_def Let_def)
    moreover have "\<lfloor>y\<rfloor> \<le> round_half_even y"
      by (simp add: round_half_even_def Let_def)
    ultimately show ?thesis by linarith
  qed
qed

lemma round_half_even_near: "\<bar>of_int (round_half_even y) - y\<bar> \<le> 1 / 2"
  unfolding round_half_even_def Let_def by (auto; linarith)

lemma round_half_even_of_int: "round_half_even (of_int n) = n"
  by (simp add: round_half_even_def)

lemma round_half_even_nearest: "\<bar>of_int (round_half_even y) - y\<bar> \<le> \<bar>of_int j - y\<bar>"
proof (cases "j = round_half_even y")
  case True
  then show ?thesis by simp
next
  case False
  then have "1 \<le> \<bar>j - round_half_even y\<bar>" by linarith
  then have "1 \<le> \<bar>(of_int j :: real) - of_int (round_half_even y)\<bar>"
    by (metis of_int_1 of_int_abs of_int_diff of_int_le_iff)
  then show ?thesis using round_half_even_near [of y] by linarith
qed

lemma exponent_ge: "- 1022 \<le> exponent x"
  by (simp add: exponent_def)

lemma ulp_pos: "0 < ulp x"
  by (simp add: ulp_def)

lemma abs_less_next: "x \<noteq> 0 \<Longrightarrow> \<bar>x\<bar> < 2 powr of_int (exponent x + 1)"
proof -
  assume x: "x \<noteq> 0"
  have "log 2 \<bar>x\<bar> < of_int (\<lfloor>log 2 \<bar>x\<bar>\<rfloor> + 1)" by linarith
  also have "\<dots> \<le> of_int (exponent x + 1)" by (simp add: exponent_def)
  finally have "log 2 \<bar>x\<bar> < of_int (exponent x + 1)" .
  then show ?thesis using x by (simp add: less_powr_iff)
qed

lemma abs_ge_binade: "x \<noteq> 0 \<Longrightarrow> - 1022 < exponent x \<Longrightarrow> 2 powr of_int (exponent x) \<le> \<bar>x\<bar>"
proof -
  assume x: "x \<noteq> 0" and e: "- 1022 < exponent x"
  then have "exponent x = \<lfloor>log 2 \<bar>x\<bar>\<rfloor>" by (simp add: exponent_def max_def split: if_splits)
  then have "of_int (exponent x) \<le> log 2 \<bar>x\<bar>" by simp
  then show ?thesis using x by (simp add: powr_le_iff)
qed

lemma abs_ge_normal: "2 powr (- 1022) \<le> \<bar>x\<bar> \<Longrightarrow> 2 powr of_int (exponent x) \<le> \<bar>x\<bar>"
proof -
  assume n: "2 powr (- 1022) \<le> \<bar>x\<bar>"
  have p: "(0::real) < 2 powr (- 1022)" by simp
  then have x: "x \<noteq> 0" using n by auto
  have "(- 1022 :: real) \<le> log 2 \<bar>x\<bar>" using n x by (simp add: powr_le_iff)
  then have "- 1022 \<le> \<lfloor>log 2 \<bar>x\<bar>\<rfloor>" by (simp add: le_floor_iff)
  then have "exponent x = \<lfloor>log 2 \<bar>x\<bar>\<rfloor>" by (simp add: exponent_def)
  then have "of_int (exponent x) \<le> log 2 \<bar>x\<bar>" by simp
  then show ?thesis using x by (simp add: powr_le_iff)
qed

lemma pow2_int: "0 \<le> k \<Longrightarrow> (2::real) powr of_int k = of_int (2 ^ nat k)"
  by (simp add: powr_real_of_int)

lemma to_double_exact:
  assumes m: "\<bar>m\<bar> < 2 ^ 53" and k: "- 1074 \<le> k"
  shows "to_double (of_int m * 2 powr of_int k) = of_int m * 2 powr of_int k"
proof (cases "m = 0")
  case True
  then show ?thesis by (simp add: to_double_def)
next
  case False
  define x :: real where "x = of_int m * 2 powr of_int k"
  have x0: "x \<noteq> 0" using False by (simp add: x_def)
  have "\<bar>x\<bar> = of_int \<bar>m\<bar> * 2 powr of_int k" by (simp add: x_def abs_mult)
  also have "\<dots> < 2 ^ 53 * 2 powr of_int k"
  proof -
    have "(of_int \<bar>m\<bar> :: real) < of_int (2 ^ 53)" using m by (simp only: of_int_less_iff)
    then show ?thesis by simp
  qed
  also have "\<dots> = 2 powr of_int (k + 53)"
    by (simp add: powr_add)
  finally have ub: "\<bar>x\<bar> < 2 powr of_int (k + 53)" .
  then have "log 2 \<bar>x\<bar> < of_int (k + 53)" using x0 by (simp add: less_powr_iff)
  then have "\<lfloor>log 2 \<bar>x\<bar>\<rfloor> < k + 53" by (simp add: floor_less_iff)
  then have e: "exponent x - 52 \<le> k" using k by (simp add: exponent_def)
  define j where "j = k - (exponent x - 52)"
  have j: "0 \<le> j" using e by (simp add: j_def)
  have "2 powr of_int k = 2 powr of_int j * ulp x"
    by (simp add: ulp_def j_def powr_add [symmetric])
  then have xu: "x = of_int (m * 2 ^ nat j) * ulp x"
    using j by (simp add: x_def pow2_int)
  have "x / ulp x = of_int (m * 2 ^ nat j)"
    using ulp_pos [of x] by (subst xu) simp
  then have "round_half_even (x / ulp x) = m * 2 ^ nat j"
    by (simp only: round_half_even_of_int)
  then have "to_double x = x"
    using x0 xu by (simp add: to_double_def)
  then show ?thesis by (simp only: x_def)
qed

lemma to_double_0: "to_double 0 = 0"
  by (simp add: to_double_def)

lemma scaled_less: "x \<noteq> 0 \<Longrightarrow> \<bar>x / ulp x\<bar> < 2 ^ 53"
proof -
  assume x: "x \<noteq> 0"
  have "\<bar>x\<bar> < 2 powr of_int (exponent x + 1)" using x by (rule abs_less_next)
  also have "\<dots> = 2 ^ 53 * ulp x"
    by (simp add: ulp_def powr_add powr_diff)
  finally have "\<bar>x\<bar> / ulp x < 2 ^ 53"
    using ulp_pos [of x] by (simp add: pos_divide_less_eq)
  then show ?thesis using ulp_pos [of x] by (simp add: abs_divide)
qed

lemma round_scaled_le: "x \<noteq> 0 \<Longrightarrow> \<bar>round_half_even (x / ulp x)\<bar> \<le> 2 ^ 53"
proof -
  assume x: "x \<noteq> 0"
  have b: "\<bar>x / ulp x\<bar> < 2 ^ 53" using x by (rule scaled_less)
  have b1: "x / ulp x \<le> 2 ^ 53" and b2: "- (2 ^ 53) \<le> x / ulp x"
    using b by linarith+
  have "round_half_even (x / ulp x) \<le> round_half_even (of_int (2 ^ 53))"
    using b1 by (intro round_half_even_mono) simp
  moreover have "round_half_even (of_int (- (2 ^ 53))) \<le> round_half_even (x / ulp x)"
    using b2 by (intro round_half_even_mono) simp
  ultimately show ?thesis
    unfolding round_half_even_of_int by linarith
qed

lemma to_double_representable:
  "\<exists>m k. to_double x = of_int m * 2 powr of_int k \<and> \<bar>m\<bar> < 2 ^ 53 \<and> - 1074 \<le> k"
proof (cases "x = 0")
  case True
  then show ?thesis by (intro exI [of _ 0] exI [of _ 0]) (simp add: to_double_def)
next
  case False
  define n where "n = round_half_even (x / ulp x)"
  have n: "\<bar>n\<bar> \<le> 2 ^ 53" unfolding n_def using False by (rule round_scaled_le)
  have td: "to_double x = of_int n * 2 powr of_int (exponent x - 52)"
    using False by (simp add: to_double_def n_def ulp_def)
  have e: "- 1074 \<le> exponent x - 52" using exponent_ge [of x] by simp
  show ?thesis
  proof (cases "\<bar>n\<bar> < 2 ^ 53")
    case True
    then show ?thesis using td e by blast
  next
    case False
    then have "\<bar>n\<bar> = 2 ^ 53" using n by simp
    then consider "n = 2 ^ 53" | "n = - (2 ^ 53)" by linarith
    then show ?thesis
    proof cases
      case 1
      have "to_double x = of_int (2 ^ 52) * 2 powr of_int (exponent x - 51)"
        unfolding td 1
        by (simp add: powr_diff)
      moreover have "\<bar>2 ^ 52 :: int\<bar> < 2 ^ 53" by simp
      moreover have "- 1074 \<le> exponent x - 51" using e by simp
      ultimately show ?thesis by blast
    next
      case 2
      have "to_double x = of_int (- (2 ^ 52)) * 2 powr of_int (exponent x - 51)"
        unfolding td 2
        by (simp add: powr_diff)
      moreover have "\<bar>- (2 ^ 52) :: int\<bar> < 2 ^ 53" by simp
      moreover have "- 1074 \<le> exponent x - 51" using e by simp
      ultimately show ?thesis by blast
    qed
  qed
qed

lemma to_double_idem: "to_double (to_double x) = to_double x"
proof -
  obtain m k where "to_double x = of_int m * 2 powr of_int k" "\<bar>m\<bar> < 2 ^ 53" "- 1074 \<le> k"
    using to_double_representable [of x] by blast
  then show ?thesis using to_double_exact [of m k] by simp
qed

lemma to_double_nearest:
  assumes m: "\<bar>m\<bar> < 2 ^ 53" and k: "- 1074 \<le> k"
  shows "\<bar>to_double x - x\<bar> \<le> \<bar>of_int m * 2 powr of_int k - x\<bar>"
proof (cases "x = 0")
  case True
  then show ?thesis by (simp add: to_double_def)
next
  case False
  define u where "u = ulp x"
  define n where "n = round_half_even (x / u)"
  define d :: real where "d = of_int m * 2 powr of_int k"
  have u: "0 < u" unfolding u_def by (rule ulp_pos)
  have td: "to_double x = of_int n * u"
    using False by (simp add: to_double_def n_def u_def)
  have mult: "\<bar>of_int n * u - x\<bar> \<le> \<bar>of_int j * u - x\<bar>" for j
  proof -
    have "\<bar>of_int n - x / u\<bar> \<le> \<bar>of_int j - x / u\<bar>"
      unfolding n_def by (rule round_half_even_nearest)
    then have "\<bar>of_int n - x / u\<bar> * u \<le> \<bar>of_int j - x / u\<bar> * u"
      using u by (simp add: mult_right_mono)
    moreover have "\<bar>of_int i - x / u\<bar> * u = \<bar>of_int i * u - x\<bar>" for i
    proof -
      have "\<bar>of_int i - x / u\<bar> * u = \<bar>(of_int i - x / u) * u\<bar>"
        using u by (simp add: abs_mult)
      also have "(of_int i - x / u) * u = of_int i * u - x"
        using u by (simp add: algebra_simps)
      finally show ?thesis .
    qed
    ultimately show ?thesis by simp
  qed
  show ?thesis
  proof (cases "exponent x - 52 \<le> k")
    case True
    define j where "j = k - (exponent x - 52)"
    have j: "0 \<le> j" using True by (simp add: j_def)
    have "2 powr of_int k = 2 powr of_int j * u"
      by (simp add: u_def ulp_def j_def powr_add [symmetric])
    then have "d = of_int (m * 2 ^ nat j) * u"
      using j by (simp add: d_def pow2_int)
    then show ?thesis
      using mult [of "m * 2 ^ nat j"] by (simp only: td d_def [symmetric])
  next
    case False
    then have kl: "k + 1 \<le> exponent x - 52" by simp
    then have en: "- 1022 < exponent x" using k by simp
    have lo: "2 powr of_int (exponent x) \<le> \<bar>x\<bar>"
      using \<open>x \<noteq> 0\<close> en by (rule abs_ge_binade)
    have "\<bar>d\<bar> = of_int \<bar>m\<bar> * 2 powr of_int k" by (simp add: d_def abs_mult)
    also have "\<dots> \<le> 2 ^ 53 * 2 powr of_int k"
    proof -
      have "\<bar>m\<bar> \<le> 2 ^ 53" using m by simp
      then have "(of_int \<bar>m\<bar> :: real) \<le> of_int (2 ^ 53)" by (simp only: of_int_le_iff)
      then show ?thesis by simp
    qed
    also have "\<dots> = 2 powr of_int (k + 53)" by (simp add: powr_add)
    also have "\<dots> \<le> 2 powr of_int (exponent x)"
      using kl by (intro powr_mono) simp_all
    finally have dl: "\<bar>d\<bar> \<le> 2 powr of_int (exponent x)" .
    have bu: "2 powr of_int (exponent x) = of_int (2 ^ 52) * u"
      by (simp add: u_def ulp_def powr_diff)
    have b1: "\<bar>of_int n * u - x\<bar> \<le> \<bar>of_int (2 ^ 52) * u - x\<bar>" by (rule mult)
    have b2: "\<bar>of_int n * u - x\<bar> \<le> \<bar>of_int (- (2 ^ 52)) * u - x\<bar>" by (rule mult)
    have "\<bar>of_int n * u - x\<bar> \<le> \<bar>x\<bar> - 2 powr of_int (exponent x)"
    proof (cases "0 \<le> x")
      case True
      then show ?thesis using b1 lo unfolding bu [symmetric] by linarith
    next
      case False
      have "of_int (- (2 ^ 52)) * u = - (2 powr of_int (exponent x))"
        by (simp add: bu)
      then show ?thesis using b2 lo False by linarith
    qed
    also have "\<dots> \<le> \<bar>d - x\<bar>" using dl by linarith
    finally show ?thesis by (simp only: td d_def)
  qed
qed

lemma to_double_mono: "x \<le> y \<Longrightarrow> to_double x \<le> to_double y"
proof (rule ccontr)
  assume xy: "x \<le> y" and "\<not> to_double x \<le> to_double y"
  then have lt: "to_double y < to_double x" by simp
  obtain m k where a: "to_double x = of_int m * 2 powr of_int k" "\<bar>m\<bar> < 2 ^ 53" "- 1074 \<le> k"
    using to_double_representable [of x] by blast
  obtain m' k' where b: "to_double y = of_int m' * 2 powr of_int k'" "\<bar>m'\<bar> < 2 ^ 53" "- 1074 \<le> k'"
    using to_double_representable [of y] by blast
  have 1: "\<bar>to_double x - x\<bar> \<le> \<bar>to_double y - x\<bar>"
    using to_double_nearest [OF b(2) b(3), of x] by (simp only: b(1))
  have 2: "\<bar>to_double y - y\<bar> \<le> \<bar>to_double x - y\<bar>"
    using to_double_nearest [OF a(2) a(3), of y] by (simp only: a(1))
  have "x = y" using 1 2 lt xy by linarith
  then show False using lt by simp
qed

lemma to_double_nonneg: "0 \<le> x \<Longrightarrow> 0 \<le> to_double x"
  using to_double_mono [of 0 x] by (simp add: to_double_0)

lemma to_double_error:
  assumes n: "2 powr (- 1022) \<le> \<bar>x\<bar>"
  shows "\<bar>to_double x - x\<bar> \<le> \<bar>x\<bar> / 2 ^ 53"
proof -
  have p: "(0::real) < 2 powr (- 1022)" by simp
  then have x: "x \<noteq> 0" using n by auto
  have lo: "2 powr of_int (exponent x) \<le> \<bar>x\<bar>" using n by (rule abs_ge_normal)
  have u: "0 < ulp x" by (rule ulp_pos)
  have "\<bar>of_int (round_half_even (x / ulp x)) - x / ulp x\<bar> \<le> 1 / 2"
    by (rule round_half_even_near)
  then have "\<bar>of_int (round_half_even (x / ulp x)) - x / ulp x\<bar> * ulp x \<le> 1 / 2 * ulp x"
    using u by (simp add: mult_right_mono)
  moreover have "\<bar>of_int (round_half_even (x / ulp x)) - x / ulp x\<bar> * ulp x
      = \<bar>of_int (round_half_even (x / ulp x)) * ulp x - x\<bar>"
  proof -
    have "\<bar>of_int (round_half_even (x / ulp x)) - x / ulp x\<bar> * ulp x
        = \<bar>(of_int (round_half_even (x / ulp x)) - x / ulp x) * ulp x\<bar>"
      using u by (simp add: abs_mult)
    also have "(of_int (round_half_even (x / ulp x)) - x / ulp x) * ulp x
        = of_int (round_half_even (x / ulp x)) * ulp x - x"
      using u by (simp add: algebra_simps)
    finally show ?thesis .
  qed
  ultimately have "\<bar>to_double x - x\<bar> \<le> ulp x / 2"
    using x by (simp add: to_double_def)
  also have "ulp x / 2 = 2 powr of_int (exponent x) / 2 ^ 53"
    by (simp add: ulp_def powr_diff)
  also have "\<dots> \<le> \<bar>x\<bar> / 2 ^ 53"
    using lo by (simp add: divide_right_mono)
  finally show ?thesis .
qed


section \<open>Synthesised scores\<close>

lemma to_double_of_int: "\<bar>m\<bar> < 2 ^ 53 \<Longrightarrow> to_double (of_int m) = of_int m"
  using to_double_exact [of m 0] by simp

lemma to_double_1: "to_double 1 = 1"
  using to_double_of_int [of 1] by simp

lemma to_double_50: "to_double 50 = 50"
  using to_double_of_int [of 50] by simp

lemma to_double_100: "to_double 100 = 100"
  using to_double_of_int [of 100] by simp

lemma round1_mono: "x \<le> y \<Longrightarrow> round1 x \<le> round1 y"
proof -
  assume "x \<le> y"
  then have "round_half_even (x * 10) \<le> round_half_even (y * 10)"
    by (intro round_half_even_mono) simp
  then have "(of_int (round_half_even (x * 10)) :: real) / 10 \<le> of_int (round_half_even (y * 10)) / 10"
    by (simp add: divide_right_mono)
  then show ?thesis unfolding round1_def by (rule to_double_mono)
qed

lemma round1_0: "round1 0 = 0"
  by (simp add: round1_def round_half_even_def to_double_0)

lemma round1_100: "round1 100 = 100"
  by (simp add: round1_def round_half_even_def to_double_100)

lemma round1_50: "round1 50 = 50"
  by (simp add: round1_def round_half_even_def to_double_50)

lemma factor_le_1: "0 \<le> c \<Longrightarrow> c \<le> 1 \<Longrightarrow> 0 \<le> to_double c \<and> to_double c \<le> 1"
  using to_double_mono [of 0 c] to_double_mono [of c 1] by (simp add: to_double_0 to_double_1)

lemma scaled_score:
  assumes o: "0 \<le> to_double x" and c: "0 \<le> c" "c \<le> 1"
  shows "0 \<le> round1 (to_double (to_double x * to_double c))
       \<and> round1 (to_double (to_double x * to_double c)) \<le> round1 (to_double x)"
proof -
  have f: "0 \<le> to_double c" "to_double c \<le> 1" using factor_le_1 [OF c] by simp_all
  have p: "0 \<le> to_double x * to_double c" using o f by simp
  have q: "to_double x * to_double c \<le> to_double x"
    using o f by (simp add: mult_left_le)
  have "to_double (to_double x * to_double c) \<le> to_double (to_double x)"
    using q by (rule to_double_mono)
  then have r: "to_double (to_double x * to_double c) \<le> to_double x"
    by (simp only: to_double_idem)
  have nn: "0 \<le> to_double (to_double x * to_double c)"
    using p by (rule to_double_nonneg)
  show ?thesis
    using round1_mono [OF nn] round1_mono [OF r] by (simp add: round1_0)
qed

text \<open>
  C5, as the code has it.  For a similarity \<open>s\<close> between \<open>0\<close> and \<open>1\<close> the four scores
  are \<open>round(s * 100, 1)\<close>, \<open>round(s * 100 * 0.95, 1)\<close>, \<open>round(s * 100 * 0.9, 1)\<close> and
  \<open>round(s * 100, 1)\<close>, each product a float product: accuracy and fluency are rounded
  to one decimal once, from the unrounded product, not from the rounded overall score.
  All four scores lie between \<open>0\<close> and \<open>100\<close>, and accuracy and fluency do not exceed
  the overall score.
\<close>

theorem scores_bounded:
  assumes "0 \<le> ratio (lower reference_text) (lower transcription)"
    and "ratio (lower reference_text) (lower transcription) \<le> 1"
  shows "(let s = ratio (lower reference_text) (lower transcription);
              sc = calculate_scores ratio reference_text transcription
          in overall sc = round1 (to_double (s * 100))
             \<and> accuracy sc = round1 (to_double (to_double (s * 100) * to_double 0.95))
             \<and> fluency sc = round1 (to_double (to_double (s * 100) * to_double 0.9))
             \<and> completeness sc = round1 (to_double (s * 100))
             \<and> 0 \<le> overall sc \<and> overall sc \<le> 100
             \<and> 0 \<le> accuracy sc \<and> accuracy sc \<le> 100
             \<and> 0 \<le> fluency sc \<and> fluency sc \<le> 100
             \<and> 0 \<le> completeness sc \<and> completeness sc \<le> 100
             \<and> accuracy sc \<le> overall sc \<and> fluency sc \<le> overall sc)"
proof -
  define s where "s = ratio (lower reference_text) (lower transcription)"
  have s: "0 \<le> s" "s \<le> 1" using assms by (simp_all add: s_def)
  have raw: "0 \<le> to_double (s * 100)" "to_double (s * 100) \<le> 100"
    using to_double_mono [of 0 "s * 100"] to_double_mono [of "s * 100" 100] s
    by (simp_all add: to_double_0 to_double_100)
  have o: "0 \<le> round1 (to_double (s * 100))" "round1 (to_double (s * 100)) \<le> 100"
    using round1_mono [OF raw(1)] round1_mono [OF raw(2)]
    by (simp_all add: round1_0 round1_100)
  have a: "0 \<le> round1 (to_double (to_double (s * 100) * to_double 0.95))"
    "round1 (to_double (to_double (s * 100) * to_double 0.95)) \<le> round1 (to_double (s * 100))"
    using scaled_score [OF raw(1), of "0.95"] by simp_all
  have f: "0 \<le> round1 (to_double (to_double (s * 100) * to_double 0.9))"
    "round1 (to_double (to_double (s * 100) * to_double 0.9)) \<le> round1 (to_double (s * 100))"
    using scaled_score [OF raw(1), of "0.9"] by simp_all
  show ?thesis
    unfolding Let_def calculate_scores_def s_def [symmetric]
    using o a f by simp
qed

theorem scores_bounded_witness:
  "(0::real) \<le> 1 / 2 \<and> (1 / 2 ::real) \<le> 1
   \<and> overall (calculate_scores (\<lambda>a b. 1 / 2) ''hello'' ''hallo'') = 50
   \<and> accuracy (calculate_scores (\<lambda>a b. 1 / 2) ''hello'' ''hallo'')
       \<le> overall (calculate_scores (\<lambda>a b. 1 / 2) ''hello'' ''hallo'')
   \<and> fluency (calculate_scores (\<lambda>a b. 1 / 2) ''hello'' ''hallo'') \<le> 100"
  using scores_bounded [of "\<lambda>a b. 1 / 2" "''hello''" "''hallo''"]
  by (simp add: Let_def to_double_50 round1_50)

lemma round_half_even_eqI:
  "of_int n - 1 / 2 < y \<Longrightarrow> y < of_int n + 1 / 2 \<Longrightarrow> round_half_even y = n"
proof -
  assume a: "of_int n - 1 / 2 < y" and b: "y < of_int n + 1 / 2"
  show ?thesis
  proof (cases "of_int n \<le> y")
    case True
    then have "\<lfloor>y\<rfloor> = n" using b by (simp add: floor_eq_iff)
    then show ?thesis using b by (simp add: round_half_even_def Let_def)
  next
    case False
    then have "\<lfloor>y\<rfloor> = n - 1" using a by (simp add: floor_eq_iff)
    then show ?thesis using a by (simp add: round_half_even_def Let_def)
  qed
qed

lemma tiny: "(2::real) powr (- 1022) \<le> 1 / 1000000"
proof -
  have "(2::real) powr (- 1022) \<le> 2 powr (- 20)" by (intro powr_mono) simp_all
  also have "(2::real) powr (- 20) = 1 / 2 ^ 20" by (simp add: powr_minus_divide)
  also have "\<dots> \<le> 1 / 1000000" by simp
  finally show ?thesis .
qed

lemma to_double_approx:
  assumes a: "1 / 1000000 \<le> a" and ax: "a \<le> x" and xb: "x \<le> b"
  shows "a * (999999 / 1000000) \<le> to_double x \<and> to_double x \<le> b * (1000001 / 1000000)"
proof -
  have x: "1 / 1000000 \<le> x" using a ax by simp
  then have n: "2 powr (- 1022) \<le> \<bar>x\<bar>" using tiny by linarith
  have "\<bar>to_double x - x\<bar> \<le> \<bar>x\<bar> / 2 ^ 53" using n by (rule to_double_error)
  also have "\<dots> \<le> \<bar>x\<bar> / 1000000"
    by (intro divide_left_mono) simp_all
  finally have e: "\<bar>to_double x - x\<bar> \<le> x / 1000000" using x by simp
  have lo: "x * (999999 / 1000000) \<le> to_double x" using e by linarith
  have hi: "to_double x \<le> x * (1000001 / 1000000)" using e by linarith
  have "a * (999999 / 1000000) \<le> x * (999999 / 1000000)" using ax by simp
  moreover have "x * (1000001 / 1000000) \<le> b * (1000001 / 1000000)" using xb by simp
  ultimately show ?thesis using lo hi by linarith
qed

lemma similarity_value:
  "2599 / 1000000 \<le> to_double (13 / 5000) \<and> to_double (13 / 5000) \<le> 2601 / 1000000"
  using to_double_approx [of "13 / 5000" "13 / 5000" "13 / 5000"] by simp

lemma factor_value:
  "9499 / 10000 \<le> to_double 0.95 \<and> to_double 0.95 \<le> 9501 / 10000"
  using to_double_approx [of "0.95" "0.95" "0.95"] by simp

lemma overall_raw_value:
  "2598 / 10000 \<le> to_double (to_double (13 / 5000) * 100)
   \<and> to_double (to_double (13 / 5000) * 100) \<le> 2602 / 10000"
  using similarity_value
    to_double_approx [of "2599 / 10000" "to_double (13 / 5000) * 100" "2601 / 10000"]
  by simp

lemma three_tenths:
  "2999 / 10000 \<le> to_double (3 / 10) \<and> to_double (3 / 10) \<le> 3001 / 10000"
  using to_double_approx [of "3 / 10" "3 / 10" "3 / 10"] by simp

lemma one_fifth:
  "1999 / 10000 \<le> to_double (1 / 5) \<and> to_double (1 / 5) \<le> 2001 / 10000"
  using to_double_approx [of "1 / 5" "1 / 5" "1 / 5"] by simp

lemma overall_value: "round1 (to_double (to_double (13 / 5000) * 100)) = to_double (3 / 10)"
proof -
  have "round_half_even (to_double (to_double (13 / 5000) * 100) * 10) = 3"
    using overall_raw_value by (intro round_half_even_eqI) simp_all
  then show ?thesis by (simp add: round1_def)
qed

lemma product_bounds:
  fixes x c :: real
  assumes "a \<le> x" "x \<le> b" "l \<le> c" "c \<le> h" "0 \<le> a" "0 \<le> l"
  shows "a * l \<le> x * c \<and> x * c \<le> b * h"
  using assms by (meson mult_mono order_trans)

lemma accuracy_value:
  "round1 (to_double (to_double (to_double (13 / 5000) * 100) * to_double 0.95)) = to_double (1 / 5)"
proof -
  have p: "2598 / 10000 * (9499 / 10000) \<le> to_double (to_double (13 / 5000) * 100) * to_double 0.95
      \<and> to_double (to_double (13 / 5000) * 100) * to_double 0.95 \<le> 2602 / 10000 * (9501 / 10000)"
    using overall_raw_value factor_value by (intro product_bounds) simp_all
  have "2467 / 10000 \<le> to_double (to_double (to_double (13 / 5000) * 100) * to_double 0.95)
      \<and> to_double (to_double (to_double (13 / 5000) * 100) * to_double 0.95) \<le> 2473 / 10000"
    using p to_double_approx [of "2598 / 10000 * (9499 / 10000)"
        "to_double (to_double (13 / 5000) * 100) * to_double 0.95" "2602 / 10000 * (9501 / 10000)"]
    by simp
  then have "round_half_even (to_double (to_double (to_double (13 / 5000) * 100) * to_double 0.95) * 10) = 2"
    by (intro round_half_even_eqI) simp_all
  then show ?thesis by (simp add: round1_def)
qed

lemma formula_value:
  "round1 (to_double (to_double (3 / 10) * to_double 0.95)) = to_double (3 / 10)"
proof -
  have p: "2999 / 10000 * (9499 / 10000) \<le> to_double (3 / 10) * to_double 0.95
      \<and> to_double (3 / 10) * to_double 0.95 \<le> 3001 / 10000 * (9501 / 10000)"
    using three_tenths factor_value by (intro product_bounds) simp_all
  have "2848 / 10000 \<le> to_double (to_double (3 / 10) * to_double 0.95)
      \<and> to_double (to_double (3 / 10) * to_double 0.95) \<le> 2852 / 10000"
    using p to_double_approx [of "2999 / 10000 * (9499 / 10000)"
        "to_double (3 / 10) * to_double 0.95" "3001 / 10000 * (9501 / 10000)"]
    by simp
  then have "round_half_even (to_double (to_double (3 / 10) * to_double 0.95) * 10) = 3"
    by (intro round_half_even_eqI) simp_all
  then show ?thesis by (simp add: round1_def)
qed

text \<open>
  The formula of the specification, accuracy as \<open>round(overall * 0.95, 1)\<close> of the rounded
  overall score, is not what the code computes: at the similarity \<open>0.0026\<close>, the float
  nearest to \<open>13 / 5000\<close>, the code returns the accuracy \<open>0.2\<close> and the formula gives
  \<open>0.3\<close>.
\<close>

theorem accuracy_double_rounding_counterexample:
  "accuracy (calculate_scores (\<lambda>a b. to_double (13 / 5000)) ''a'' ''b'') = to_double (1 / 5)
   \<and> round1 (to_double (overall (calculate_scores (\<lambda>a b. to_double (13 / 5000)) ''a'' ''b'')
               * to_double 0.95)) = to_double (3 / 10)
   \<and> to_double (1 / 5) < to_double (3 / 10)"
proof -
  have lt: "to_double (1 / 5) < to_double (3 / 10)"
    using one_fifth three_tenths by linarith
  show ?thesis
    unfolding calculate_scores_def Let_def
    by (simp only: PronunciationScore.select_convs accuracy_value overall_value formula_value
        lt simp_thms)
qed


section \<open>GOP metrics on degenerate input\<close>












































section \<open>The edit-distance table computes the Levenshtein distance\<close>

text \<open>
  The table is filled along prefixes, the reference recursion runs along suffixes.  The
  two meet in \<open>levenshtein_snoc_code\<close>: the distance obeys the recurrence of the loop body
  on the last symbols, including its shortcut for equal symbols.  The loops are then
  followed with the invariants \<open>rows_done\<close> and \<open>row_part\<close>.
\<close>

lemma levenshtein_Nil2 [simp]: "levenshtein xs [] = length xs"
  by (cases xs) simp_all

lemma levenshtein_sym: "levenshtein xs ys = levenshtein ys xs"
  by (induction xs ys rule: levenshtein.induct) (simp_all add: min.commute eq_commute)

lemma levenshtein_single_snoc:
  "levenshtein [x] (ys @ [y]) =
     min (min (length ys + 2) (levenshtein [x] ys + 1)) (length ys + (if x = y then 0 else 1))"
  by (induction ys) (auto simp: min_def)

lemma levenshtein_snoc_single:
  "levenshtein (zs @ [x]) [y] =
     min (min (levenshtein zs [y] + 1) (length zs + 2)) (length zs + (if x = y then 0 else 1))"
proof -
  have 1: "levenshtein (zs @ [x]) [y] = levenshtein [y] (zs @ [x])"
    by (rule levenshtein_sym)
  have 2: "levenshtein [y] (zs @ [x]) =
      min (min (length zs + 2) (levenshtein [y] zs + 1)) (length zs + (if y = x then 0 else 1))"
    by (rule levenshtein_single_snoc)
  have 3: "levenshtein [y] zs = levenshtein zs [y]"
    by (rule levenshtein_sym)
  have 4: "(y = x) = (x = y)" by auto
  show ?thesis unfolding 1 2 3 4 by (simp only: min.commute)
qed

lemma min9_exchange:
  fixes A B C D E F G H I p q c :: nat
  shows "min (min (min (min (A + c) (B + c)) (C + p) + c) (min (min (D + c) (E + c)) (F + p) + c))
             (min (min (G + c) (H + c)) (I + p) + q)
       = min (min (min (min (A + c) (D + c)) (G + q) + c) (min (min (B + c) (E + c)) (H + q) + c))
             (min (min (C + c) (F + c)) (I + q) + p)"
  apply (simp only: min_add_distrib_left)
  apply (simp only: add.assoc add.commute add.left_commute)
  apply (simp only: min.assoc min.commute min.left_commute)
  done

lemma levenshtein_snoc:
  "levenshtein (xs @ [x]) (ys @ [y]) =
     min (min (levenshtein xs (ys @ [y]) + 1) (levenshtein (xs @ [x]) ys + 1))
         (levenshtein xs ys + (if x = y then 0 else 1))"
proof (induction xs ys rule: levenshtein.induct)
  case (1 ys)
  show ?case using levenshtein_single_snoc [of x ys y] by simp
next
  case (2 v va)
  show ?case using levenshtein_snoc_single [of "v # va" x y] by simp
next
  case (3 a xs b ys)
  let ?p = "if x = y then 0 else 1::nat" and ?q = "if a = b then 0 else 1::nat"
  have L: "levenshtein ((a # xs) @ [x]) ((b # ys) @ [y]) =
      min (min (levenshtein (xs @ [x]) ((b # ys) @ [y]) + 1) (levenshtein ((a # xs) @ [x]) (ys @ [y]) + 1))
          (levenshtein (xs @ [x]) (ys @ [y]) + ?q)"
    by simp
  have R1: "levenshtein (a # xs) ((b # ys) @ [y]) =
      min (min (levenshtein xs ((b # ys) @ [y]) + 1) (levenshtein (a # xs) (ys @ [y]) + 1))
          (levenshtein xs (ys @ [y]) + ?q)"
    by simp
  have R2: "levenshtein ((a # xs) @ [x]) (b # ys) =
      min (min (levenshtein (xs @ [x]) (b # ys) + 1) (levenshtein ((a # xs) @ [x]) ys + 1))
          (levenshtein (xs @ [x]) ys + ?q)"
    by simp
  have R3: "levenshtein (a # xs) (b # ys) =
      min (min (levenshtein xs (b # ys) + 1) (levenshtein (a # xs) ys + 1))
          (levenshtein xs ys + ?q)"
    by simp
  show ?case
    unfolding L "3.IH" R1 R2 R3 by (rule min9_exchange)
qed

lemma levenshtein_rev: "levenshtein (rev xs) (rev ys) = levenshtein xs ys"
  by (induction xs ys rule: levenshtein.induct) (simp_all add: levenshtein_snoc)

lemma levenshtein_length_le: "length ys \<le> levenshtein xs ys + length xs"
  by (induction xs ys rule: levenshtein.induct) auto

lemma levenshtein_length_le2: "length xs \<le> levenshtein xs ys + length ys"
  by (induction xs ys rule: levenshtein.induct) auto

lemma le_min3_plus:
  fixes a b c d :: nat
  assumes "c \<le> a + 1" "c \<le> b + 1" "c \<le> d + 1"
  shows "c \<le> min (min a b) d + 1"
  using assms by (simp add: min_def)

lemma levenshtein_drop_head:
  "levenshtein xs ys \<le> levenshtein xs (y # ys) + 1 \<and> levenshtein xs ys \<le> levenshtein (x # xs) ys + 1"
proof (induction xs ys arbitrary: x y rule: levenshtein.induct)
  case (1 ys)
  show ?case using levenshtein_length_le [of ys "[x]"] by simp
next
  case (2 v va)
  have "length (v # va) \<le> levenshtein (v # va) [y] + length [y]"
    by (rule levenshtein_length_le2)
  then show ?case by simp
next
  case (3 a xs b ys)
  let ?L = "levenshtein (a # xs) (b # ys)"
  have A: "?L \<le> levenshtein xs (b # ys) + 1"
    and B: "?L \<le> levenshtein (a # xs) ys + 1"
    by simp_all
  have I1: "levenshtein xs (b # ys) \<le> levenshtein xs (y # b # ys) + 1"
    using "3.IH"(1) [of y x] by blast
  have I2: "levenshtein (a # xs) ys \<le> levenshtein (x # a # xs) ys + 1"
    using "3.IH"(2) [of y x] by blast
  have E1: "levenshtein (a # xs) (y # b # ys) =
      min (min (levenshtein xs (y # b # ys) + 1) (?L + 1))
          (levenshtein xs (b # ys) + (if a = y then 0 else 1))"
    by (rule levenshtein.simps(3))
  have E2: "levenshtein (x # a # xs) (b # ys) =
      min (min (?L + 1) (levenshtein (x # a # xs) ys + 1))
          (levenshtein (a # xs) ys + (if x = b then 0 else 1))"
    by (rule levenshtein.simps(3))
  have P1: "?L \<le> levenshtein (a # xs) (y # b # ys) + 1"
    unfolding E1
  proof (rule le_min3_plus)
    show "?L \<le> levenshtein xs (y # b # ys) + 1 + 1" using A I1 by linarith
    show "?L \<le> ?L + 1 + 1" by linarith
    show "?L \<le> levenshtein xs (b # ys) + (if a = y then 0 else 1) + 1" using A by linarith
  qed
  have P2: "?L \<le> levenshtein (x # a # xs) (b # ys) + 1"
    unfolding E2
  proof (rule le_min3_plus)
    show "?L \<le> ?L + 1 + 1" by linarith
    show "?L \<le> levenshtein (x # a # xs) ys + 1 + 1" using B I2 by linarith
    show "?L \<le> levenshtein (a # xs) ys + (if x = b then 0 else 1) + 1" using B by linarith
  qed
  show ?case using P1 P2 by blast
qed

lemma levenshtein_same_head: "levenshtein (x # xs) (x # ys) = levenshtein xs ys"
  using levenshtein_drop_head [of xs ys x x] by (simp add: min_def)

lemma levenshtein_snoc_code:
  "levenshtein (xs @ [x]) (ys @ [y]) =
     (if x = y then levenshtein xs ys
      else 1 + min (levenshtein xs (ys @ [y])) (min (levenshtein (xs @ [x]) ys) (levenshtein xs ys)))"
proof (cases "x = y")
  case True
  have "levenshtein (xs @ [x]) (ys @ [x]) = levenshtein (rev (xs @ [x])) (rev (ys @ [x]))"
    by (simp only: levenshtein_rev)
  also have "\<dots> = levenshtein (rev xs) (rev ys)"
    by (simp add: levenshtein_same_head del: levenshtein.simps)
  finally show ?thesis using True by (simp add: levenshtein_rev)
next
  case False
  then show ?thesis
    by (simp add: levenshtein_snoc min_add_distrib_left min.assoc)
qed

lemma table_ok_set_cell: "table_ok m n dp \<Longrightarrow> table_ok m n (set_cell dp i j v)"
  by (cases "i < length dp") (auto simp: table_ok_def set_cell_def nth_list_update)

lemma nth_set_cell:
  "table_ok m n dp \<Longrightarrow> i \<le> m \<Longrightarrow> j \<le> n \<Longrightarrow> a \<le> m \<Longrightarrow>
     set_cell dp i j v ! a ! b = (if a = i \<and> b = j then v else dp ! a ! b)"
  by (auto simp: table_ok_def set_cell_def nth_list_update)

lemma table_ok_empty: "table_ok m n (empty_table m n)"
  by (auto simp: table_ok_def empty_table_def simp del: upt_Suc)

lemma foldl_upt_invariant:
  assumes "P a s" and "a \<le> b"
    and "\<And>k s. a \<le> k \<Longrightarrow> k < b \<Longrightarrow> P k s \<Longrightarrow> P (Suc k) (f s k)"
  shows "P b (foldl f s [a..<b])"
  using assms(2,3)
proof (induction b)
  case 0
  then show ?case using assms(1) by simp
next
  case (Suc b)
  show ?case
  proof (cases "a = Suc b")
    case True
    then show ?thesis using assms(1) by simp
  next
    case False
    then have ab: "a \<le> b" using Suc.prems(1) by simp
    have "P b (foldl f s [a..<b])"
      using Suc.IH [OF ab] Suc.prems(2) by simp
    then have "P (Suc b) (f (foldl f s [a..<b]) b)"
      using Suc.prems(2) [of b] ab by simp
    then show ?thesis using ab by simp
  qed
qed

lemma take_snoc_nth: "Suc k \<le> length xs \<Longrightarrow> take (Suc k) xs = take k xs @ [xs ! k]"
  by (simp add: take_Suc_conv_app_nth)

lemma levenshtein_take_step:
  assumes "Suc i \<le> length r" "Suc j \<le> length h"
  shows "levenshtein (take (Suc i) r) (take (Suc j) h) =
     (if r ! i = h ! j then levenshtein (take i r) (take j h)
      else 1 + min (levenshtein (take i r) (take (Suc j) h))
                   (min (levenshtein (take (Suc i) r) (take j h)) (levenshtein (take i r) (take j h))))"
proof -
  have "levenshtein (take (Suc i) r) (take (Suc j) h) =
      levenshtein (take i r @ [r ! i]) (take j h @ [h ! j])"
    using assms by (simp only: take_snoc_nth)
  also have "\<dots> = (if r ! i = h ! j then levenshtein (take i r) (take j h)
      else 1 + min (levenshtein (take i r) (take j h @ [h ! j]))
                   (min (levenshtein (take i r @ [r ! i]) (take j h)) (levenshtein (take i r) (take j h))))"
    by (rule levenshtein_snoc_code)
  finally show ?thesis
    using assms by (simp only: take_snoc_nth)
qed

lemma fill_cell_step:
  assumes inv: "row_part r h i j dp" and i: "1 \<le> i" "i \<le> length r" and j: "1 \<le> j" "j \<le> length h"
  shows "row_part r h i (Suc j) (fill_cell r h dp i j)"
proof -
  obtain i' j' where i': "i = Suc i'" and j': "j = Suc j'"
    using i(1) j(1) by (metis Suc_le_D One_nat_def)
  have ok: "table_ok (length r) (length h) dp"
    and col: "\<forall>a\<le>length r. dp ! a ! 0 = a"
    and above: "\<forall>a<i. \<forall>b\<le>length h. dp ! a ! b = levenshtein (take a r) (take b h)"
    and left: "\<forall>b<j. dp ! i ! b = levenshtein (take i r) (take b h)"
    using inv by (auto simp: row_part_def rows_done_def)
  have d1: "dp ! i' ! j' = levenshtein (take i' r) (take j' h)"
    and d2: "dp ! i' ! j = levenshtein (take i' r) (take j h)"
    and d3: "dp ! i ! j' = levenshtein (take i r) (take j' h)"
    using above left i' j' j(2) by auto
  define v where "v = levenshtein (take i r) (take j h)"
  have step: "fill_cell r h dp i j = set_cell dp i j v"
    unfolding fill_cell_def v_def
    using levenshtein_take_step [of i' r j' h] i(2) j(2) d1 d2 d3
    by (simp add: i' j')
  have nth: "\<And>a b. a \<le> length r \<Longrightarrow>
      set_cell dp i j v ! a ! b = (if a = i \<and> b = j then v else dp ! a ! b)"
    using nth_set_cell [OF ok i(2) j(2)] by simp
  have "table_ok (length r) (length h) (set_cell dp i j v)"
    using ok by (rule table_ok_set_cell)
  moreover have "\<forall>a\<le>length r. set_cell dp i j v ! a ! 0 = a"
    using col j(1) by (simp add: nth)
  moreover have "\<forall>a<i. \<forall>b\<le>length h. set_cell dp i j v ! a ! b = levenshtein (take a r) (take b h)"
    using above i(2) by (simp add: nth)
  moreover have "\<forall>b<Suc j. set_cell dp i j v ! i ! b = levenshtein (take i r) (take b h)"
  proof (intro allI impI)
    fix b assume "b < Suc j"
    then consider "b < j" | "b = j" by linarith
    then show "set_cell dp i j v ! i ! b = levenshtein (take i r) (take b h)"
    proof cases
      case 1
      then show ?thesis using left i(2) by (simp add: nth)
    next
      case 2
      have "set_cell dp i j v ! i ! j = v" using i(2) by (simp add: nth)
      then show ?thesis using 2 by (simp only: v_def)
    qed
  qed
  ultimately show ?thesis
    unfolding step row_part_def rows_done_def by blast
qed

lemma fill_row:
  assumes inv: "rows_done r h i dp" and i: "1 \<le> i" "i \<le> length r"
  shows "rows_done r h (Suc i) (foldl (\<lambda>dp j. fill_cell r h dp i j) dp [1..<length h + 1])"
proof -
  define dp' where "dp' = foldl (\<lambda>dp j. fill_cell r h dp i j) dp [1..<length h + 1]"
  have start: "row_part r h i 1 dp"
    using inv i(2) by (auto simp: row_part_def rows_done_def)
  have "row_part r h i (length h + 1) dp'"
    unfolding dp'_def
  proof (rule foldl_upt_invariant [where P = "row_part r h i"])
    show "row_part r h i 1 dp" by (rule start)
    show "1 \<le> length h + 1" by simp
  next
    fix k s
    assume "1 \<le> k" "k < length h + 1" "row_part r h i k s"
    then show "row_part r h i (Suc k) (fill_cell r h s i k)"
      using fill_cell_step [of r h i k s] i by simp
  qed
  then have ok: "table_ok (length r) (length h) dp'"
    and col: "\<forall>a\<le>length r. dp' ! a ! 0 = a"
    and above: "\<forall>a<i. \<forall>b\<le>length h. dp' ! a ! b = levenshtein (take a r) (take b h)"
    and row: "\<forall>b<length h + 1. dp' ! i ! b = levenshtein (take i r) (take b h)"
    by (simp_all add: row_part_def rows_done_def)
  have "\<forall>a<Suc i. \<forall>b\<le>length h. dp' ! a ! b = levenshtein (take a r) (take b h)"
  proof (intro allI impI)
    fix a b assume a: "a < Suc i" and b: "b \<le> length h"
    show "dp' ! a ! b = levenshtein (take a r) (take b h)"
    proof (cases "a = i")
      case True
      have "b < length h + 1" using b by simp
      then show ?thesis using row True by blast
    next
      case False
      then have "a < i" using a by simp
      then show ?thesis using above b by blast
    qed
  qed
  then have "rows_done r h (Suc i) dp'"
    using ok col unfolding rows_done_def by blast
  then show ?thesis by (simp only: dp'_def)
qed

lemma fill_rows:
  assumes "rows_done r h 1 dp"
  shows "rows_done r h (length r + 1)
     (foldl (\<lambda>dp i. foldl (\<lambda>dp j. fill_cell r h dp i j) dp [1..<length h + 1]) dp [1..<length r + 1])"
proof (rule foldl_upt_invariant [where P = "rows_done r h"])
  show "rows_done r h 1 dp" by (rule assms)
  show "1 \<le> length r + 1" by simp
next
  fix k s
  assume "1 \<le> k" "k < length r + 1" "rows_done r h k s"
  then show "rows_done r h (Suc k) (foldl (\<lambda>dp j. fill_cell r h dp k j) s [1..<length h + 1])"
    using fill_row [of r h k s] by simp
qed

lemma first_column:
  "table_ok m n dp \<Longrightarrow>
     table_ok m n (foldl (\<lambda>dp i. set_cell dp i 0 i) dp [0..<m + 1])
     \<and> (\<forall>a<m + 1. foldl (\<lambda>dp i. set_cell dp i 0 i) dp [0..<m + 1] ! a ! 0 = a)"
proof (rule foldl_upt_invariant [where P = "\<lambda>k s. table_ok m n s \<and> (\<forall>a<k. s ! a ! 0 = a)"])
  fix k s
  assume k: "0 \<le> k" "k < m + 1" and inv: "table_ok m n s \<and> (\<forall>a<k. s ! a ! 0 = a)"
  have ok: "table_ok m n s" using inv by simp
  have km: "k \<le> m" using k by simp
  have nth: "\<And>a b. a \<le> m \<Longrightarrow> set_cell s k 0 k ! a ! b = (if a = k \<and> b = 0 then k else s ! a ! b)"
    using nth_set_cell [OF ok km, of 0] by simp
  show "table_ok m n (set_cell s k 0 k) \<and> (\<forall>a<Suc k. set_cell s k 0 k ! a ! 0 = a)"
    using inv km by (auto simp: nth table_ok_set_cell less_Suc_eq)
qed simp_all

lemma first_row:
  assumes "table_ok m n dp" "\<forall>a\<le>m. dp ! a ! 0 = a"
  shows "table_ok m n (foldl (\<lambda>dp j. set_cell dp 0 j j) dp [0..<n + 1])
     \<and> (\<forall>a\<le>m. foldl (\<lambda>dp j. set_cell dp 0 j j) dp [0..<n + 1] ! a ! 0 = a)
     \<and> (\<forall>b<n + 1. foldl (\<lambda>dp j. set_cell dp 0 j j) dp [0..<n + 1] ! 0 ! b = b)"
proof (rule foldl_upt_invariant
    [where P = "\<lambda>k s. table_ok m n s \<and> (\<forall>a\<le>m. s ! a ! 0 = a) \<and> (\<forall>b<k. s ! 0 ! b = b)"])
  show "table_ok m n dp \<and> (\<forall>a\<le>m. dp ! a ! 0 = a) \<and> (\<forall>b<0. dp ! 0 ! b = b)"
    using assms by simp
  show "0 \<le> n + 1" by simp
next
  fix k s
  assume k: "0 \<le> k" "k < n + 1"
    and inv: "table_ok m n s \<and> (\<forall>a\<le>m. s ! a ! 0 = a) \<and> (\<forall>b<k. s ! 0 ! b = b)"
  have ok: "table_ok m n s" using inv by simp
  have kn: "k \<le> n" using k by simp
  have nth: "\<And>a b. a \<le> m \<Longrightarrow> set_cell s 0 k k ! a ! b = (if a = 0 \<and> b = k then k else s ! a ! b)"
    using nth_set_cell [OF ok _ kn, of 0] by simp
  show "table_ok m n (set_cell s 0 k k) \<and> (\<forall>a\<le>m. set_cell s 0 k k ! a ! 0 = a)
      \<and> (\<forall>b<Suc k. set_cell s 0 k k ! 0 ! b = b)"
    using inv by (auto simp: nth table_ok_set_cell less_Suc_eq)
qed

lemma edit_distance_levenshtein: "edit_distance r h = levenshtein r h"
proof -
  let ?m = "length r" and ?n = "length h"
  let ?dp1 = "foldl (\<lambda>dp i. set_cell dp i 0 i) (empty_table ?m ?n) [0..<?m + 1]"
  let ?dp2 = "foldl (\<lambda>dp j. set_cell dp 0 j j) ?dp1 [0..<?n + 1]"
  let ?dp3 = "foldl (\<lambda>dp i. foldl (\<lambda>dp j. fill_cell r h dp i j) dp [1..<?n + 1]) ?dp2 [1..<?m + 1]"
  have 1: "table_ok ?m ?n ?dp1 \<and> (\<forall>a<?m + 1. ?dp1 ! a ! 0 = a)"
    using first_column [OF table_ok_empty] .
  then have c1: "\<forall>a\<le>?m. ?dp1 ! a ! 0 = a" by (simp add: less_Suc_eq_le)
  have 2: "table_ok ?m ?n ?dp2 \<and> (\<forall>a\<le>?m. ?dp2 ! a ! 0 = a) \<and> (\<forall>b<?n + 1. ?dp2 ! 0 ! b = b)"
    using first_row [of ?m ?n ?dp1] 1 c1 by blast
  have "rows_done r h 1 ?dp2"
    using 2 by (simp add: rows_done_def less_Suc_eq_le)
  then have "rows_done r h (?m + 1) ?dp3"
    by (rule fill_rows)
  then have "?dp3 ! ?m ! ?n = levenshtein (take ?m r) (take ?n h)"
    by (simp add: rows_done_def)
  then show ?thesis
    by (simp add: edit_distance_def edit_table_def Let_def)
qed


section \<open>Corpus-level aggregates\<close>

text \<open>Both loops over the corpus are folds that add up two counters.\<close>

lemma foldl_wer_step:
  "foldl wer_step (a, b) hrs =
     (a + real (\<Sum>(h, r)\<leftarrow>hrs. edit_distance (split (lower r)) (split (lower h))),
      b + (\<Sum>(h, r)\<leftarrow>hrs. length (split (lower r))))"
  by (induction hrs arbitrary: a b) (auto simp: wer_step_def Let_def)

lemma foldl_accuracy_step:
  "foldl accuracy_step (a, b) pgs =
     (a + (\<Sum>(p, g)\<leftarrow>pgs. length (filter (\<lambda>(x, y). x = y)
              (zip (take (min (length p) (length g)) p) (take (min (length p) (length g)) g)))),
      b + (\<Sum>(p, g)\<leftarrow>pgs. length g))"
  by (induction pgs arbitrary: a b) (auto simp: accuracy_step_def Let_def)

lemma zip_as_map_nth:
  "zip xs ys = map (\<lambda>i. (xs ! i, ys ! i)) [0..<min (length xs) (length ys)]"
  by (rule nth_equalityI) simp_all

lemma zip_take_matches:
  "length (filter (\<lambda>(x, y). x = y) (zip (take (min (length p) (length g)) p) (take (min (length p) (length g)) g)))
     = positional_matches p g"
proof -
  have "zip (take (min (length p) (length g)) p) (take (min (length p) (length g)) g) = zip p g"
    by (simp add: take_zip [symmetric])
  then show ?thesis
    by (simp add: positional_matches_def zip_as_map_nth [of p g] filter_map comp_def)
qed

lemma wer_as_sums:
  "calculate_word_error_rate hs rs =
     (if (\<Sum>(h, r)\<leftarrow>zip hs rs. length (split (lower r))) = 0 then 0
      else real (\<Sum>(h, r)\<leftarrow>zip hs rs. levenshtein (split (lower r)) (split (lower h)))
           / real (\<Sum>(h, r)\<leftarrow>zip hs rs. length (split (lower r))))"
  by (simp add: calculate_word_error_rate_def foldl_wer_step edit_distance_levenshtein)

lemma accuracy_as_sums:
  "calculate_phoneme_accuracy ps gs =
     (if (\<Sum>(p, g)\<leftarrow>zip ps gs. length g) = 0 then 0
      else real (\<Sum>(p, g)\<leftarrow>zip ps gs. positional_matches p g)
           / real (\<Sum>(p, g)\<leftarrow>zip ps gs. length g))"
  by (simp add: calculate_phoneme_accuracy_def foldl_accuracy_step zip_take_matches)

lemma sum_list_mset_cong:
  fixes f :: "'a \<Rightarrow> nat"
  assumes "mset xs = mset ys"
  shows "sum_list (map f xs) = sum_list (map f ys)"
proof -
  have "sum_list (map f xs) = sum_mset (image_mset f (mset xs))"
    by (simp add: sum_mset_sum_list [symmetric])
  also have "\<dots> = sum_mset (image_mset f (mset ys))"
    using assms by simp
  also have "\<dots> = sum_list (map f ys)"
    by (simp add: sum_mset_sum_list [symmetric])
  finally show ?thesis .
qed

lemma split_hello_world: "split (lower ''Hello world'') = [''hello'', ''world'']"
  by code_simp

lemma split_hello_beautiful_world:
  "split (lower ''hello  beautiful WORLD'') = [''hello'', ''beautiful'', ''world'']"
  by code_simp

lemma split_goodbye: "split (lower ''goodbye'') = [''goodbye'']"
  by code_simp

lemma split_hello: "split (lower ''hello'') = [''hello'']"
  by code_simp

text \<open>
  C3.  The word error rate of two lists of texts is the sum, over the pairs of
  \<open>zip(hypotheses, references)\<close>, of the Levenshtein distances between the lowercased,
  whitespace-split word sequences, divided by the total number of reference words of
  those pairs; it is \<open>0\<close> when that total is \<open>0\<close>.
\<close>

theorem wer_pooled:
  "calculate_word_error_rate hypotheses references =
     (let pairs = zip hypotheses references;
          total_edits = (\<Sum>(h, r)\<leftarrow>pairs. levenshtein (split (lower r)) (split (lower h)));
          total_reference_words = (\<Sum>(h, r)\<leftarrow>pairs. length (split (lower r)))
      in if total_reference_words = 0 then 0
         else real total_edits / real total_reference_words)"
  by (simp add: wer_as_sums Let_def)

theorem wer_pooled_witness:
  "calculate_word_error_rate [''hello  beautiful WORLD'', ''goodbye''] [''Hello world'', ''hello''] = 2 / 3"
  using wer_pooled [of "[''hello  beautiful WORLD'', ''goodbye'']" "[''Hello world'', ''hello'']"]
  by (simp add: Let_def split_hello_world split_hello_beautiful_world split_goodbye split_hello)

lemma matches_truncated: "positional_matches [''P'', ''AE''] [''P'', ''AE'', ''T''] = 2"
  by code_simp

text \<open>
  C4.  The phoneme accuracy is the number of positional matches, counted over the first
  \<open>min(len(pred), len(gt))\<close> positions of each pair, divided by the sum of the full
  ground-truth lengths; it is \<open>0\<close> when that sum is \<open>0\<close>.
\<close>

theorem accuracy_positional:
  "calculate_phoneme_accuracy predicted ground_truth =
     (let pairs = zip predicted ground_truth;
          correct = (\<Sum>(p, g)\<leftarrow>pairs. positional_matches p g);
          total = (\<Sum>(p, g)\<leftarrow>pairs. length g)
      in if total = 0 then 0 else real correct / real total)"
  by (simp add: accuracy_as_sums Let_def)

theorem accuracy_positional_witness:
  "calculate_phoneme_accuracy [[''P'', ''AE'']] [[''P'', ''AE'', ''T'']] = 2 / 3"
  using accuracy_positional [of "[[''P'', ''AE'']]" "[[''P'', ''AE'', ''T'']]"]
  by (simp add: Let_def matches_truncated)

text \<open>
  C8.  Two corpora with the same pairs, in whatever order, have the same word error rate
  and the same phoneme accuracy.
\<close>

theorem order_invariance:
  "(mset (zip hs rs) = mset (zip hs' rs')
      \<longrightarrow> calculate_word_error_rate hs rs = calculate_word_error_rate hs' rs')
   \<and> (mset (zip ps gs) = mset (zip ps' gs')
      \<longrightarrow> calculate_phoneme_accuracy ps gs = calculate_phoneme_accuracy ps' gs')"
proof (intro conjI impI)
  assume a: "mset (zip hs rs) = mset (zip hs' rs')"
  show "calculate_word_error_rate hs rs = calculate_word_error_rate hs' rs'"
    unfolding wer_as_sums using sum_list_mset_cong [OF a] by simp
next
  assume a: "mset (zip ps gs) = mset (zip ps' gs')"
  show "calculate_phoneme_accuracy ps gs = calculate_phoneme_accuracy ps' gs'"
    unfolding accuracy_as_sums using sum_list_mset_cong [OF a] by simp
qed

theorem order_invariance_witness:
  "mset (zip [''a b'', ''c''] [''a'', ''c d'']) = mset (zip [''c'', ''a b''] [''c d'', ''a''])
   \<and> mset (zip [[''P''], [''K'', ''T'']] [[''P'', ''T''], [''K'']])
       = mset (zip [[''K'', ''T''], [''P'']] [[''K''], [''P'', ''T'']])
   \<and> calculate_word_error_rate [''a b'', ''c''] [''a'', ''c d'']
       = calculate_word_error_rate [''c'', ''a b''] [''c d'', ''a'']
   \<and> calculate_phoneme_accuracy [[''P''], [''K'', ''T'']] [[''P'', ''T''], [''K'']]
       = calculate_phoneme_accuracy [[''K'', ''T''], [''P'']] [[''K''], [''P'', ''T'']]"
proof -
  have w: "mset (zip [''a b'', ''c''] [''a'', ''c d'']) = mset (zip [''c'', ''a b''] [''c d'', ''a''])"
    by (simp add: add_mset_commute)
  have p: "mset (zip [[''P''], [''K'', ''T'']] [[''P'', ''T''], [''K'']])
      = mset (zip [[''K'', ''T''], [''P'']] [[''K''], [''P'', ''T'']])"
    by (simp add: add_mset_commute)
  show ?thesis
    using w p
      order_invariance [of "[''a b'', ''c'']" "[''a'', ''c d'']" "[''c'', ''a b'']" "[''c d'', ''a'']"
        "[[''P''], [''K'', ''T'']]" "[[''P'', ''T''], [''K'']]"
        "[[''K'', ''T''], [''P'']]" "[[''K''], [''P'', ''T'']]"]
    by blast
qed


section \<open>Error analysis\<close>

text \<open>
  Counting the keys one after the other into an empty dictionary builds \<open>tally\<close> of the
  keys: a key met again is counted in place, a new key is appended.
\<close>

lemma first_seen_snoc:
  "first_seen (ks @ [k]) = (if k \<in> set ks then first_seen ks else first_seen ks @ [k])"
  by (simp add: first_seen_def)

lemma set_first_seen [simp]: "set (first_seen ks) = set ks"
  by (simp add: first_seen_def)

lemma distinct_first_seen [simp]: "distinct (first_seen ks)"
  by (simp add: first_seen_def)

lemma dict_get_table:
  "dict_get (map (\<lambda>k. (k, f k)) xs) k dflt = (if k \<in> set xs then f k else dflt)"
  by (induction xs) (auto simp: dict_get_def)

lemma dict_set_table_new:
  "k \<notin> set xs \<Longrightarrow> dict_set (map (\<lambda>k. (k, f k)) xs) k v = map (\<lambda>k. (k, f k)) xs @ [(k, v)]"
  by (induction xs) auto

lemma dict_set_table_old:
  "k \<in> set xs \<Longrightarrow> distinct xs \<Longrightarrow>
     dict_set (map (\<lambda>k. (k, f k)) xs) k v = map (\<lambda>k'. (k', if k' = k then v else f k')) xs"
  by (induction xs) auto

lemma bump_tally: "bump (tally ks) k = tally (ks @ [k])"
proof (cases "k \<in> set ks")
  case True
  then show ?thesis
    by (simp add: bump_def tally_def dict_get_table dict_set_table_old first_seen_snoc)
next
  case False
  then show ?thesis
    by (auto simp: bump_def tally_def dict_get_table dict_set_table_new first_seen_snoc)
qed

lemma foldl_bump_tally: "foldl bump (tally ks) ks' = tally (ks @ ks')"
proof (induction ks' arbitrary: ks)
  case Nil
  show ?case by simp
next
  case (Cons k ks')
  show ?case using Cons [of "ks @ [k]"] by (simp add: bump_tally)
qed

lemma foldl_count_error:
  "foldl count_error d pgs = foldl bump d (map error_key_of (filter (\<lambda>(p, g). p \<noteq> g) pgs))"
  by (induction pgs arbitrary: d) (auto simp: count_error_def)

lemma foldl_analyse_pairs:
  "foldl analyse_utterance d prs =
     foldl bump d (map error_key_of
       (concat (map (\<lambda>(pred, gt). filter (\<lambda>(p, g). p \<noteq> g) (zip (get_phonemes pred) (get_phonemes gt))) prs)))"
  by (induction prs arbitrary: d) (auto simp: analyse_utterance_def foldl_count_error Let_def)

lemma phoneme_errors_tally:
  "foldl analyse_utterance [] (zip predictions ground_truths) =
     tally (map error_key_of (mismatches predictions ground_truths))"
proof -
  have "tally ([] :: string list) = []" by (simp add: tally_def first_seen_def)
  then show ?thesis
    using foldl_bump_tally [of "[]" "map error_key_of (mismatches predictions ground_truths)"]
    by (simp add: foldl_analyse_pairs mismatches_def)
qed

lemma filter_take_prefix: "\<exists>m. filter P (take n xs) = take m (filter P xs)"
proof (induction xs arbitrary: n)
  case Nil
  show ?case by simp
next
  case (Cons a xs)
  show ?case
  proof (cases n)
    case 0
    then show ?thesis by (intro exI [of _ 0]) simp
  next
    case (Suc n')
    obtain m where m: "filter P (take n' xs) = take m (filter P xs)"
      using Cons [of n'] by blast
    show ?thesis
    proof (cases "P a")
      case True
      then show ?thesis using m Suc by (intro exI [of _ "Suc m"]) simp
    next
      case False
      then show ?thesis using m Suc by (intro exI [of _ m]) simp
    qed
  qed
qed

text \<open>
  Two symbols without the separator are determined by their key, so that counting keys is
  counting pairs.
\<close>

lemma key_split:
  assumes "\<not> str_in ''->'' g" and "\<not> str_in ''->'' g'"
    and "g @ ''->'' @ p = g' @ ''->'' @ p'"
  shows "g = g' \<and> p = p'"
  using assms
proof (induction g arbitrary: g')
  case Nil
  show ?case
  proof (cases g')
    case Nil
    then show ?thesis using Nil.prems by simp
  next
    case (Cons c cs)
    then show ?thesis using Nil.prems by (cases cs) auto
  qed
next
  case (Cons a as)
  show ?case
  proof (cases g')
    case Nil
    then show ?thesis using Cons.prems by (cases as) auto
  next
    case (Cons c cs)
    have 1: "\<not> str_in ''->'' as" using Cons.prems(1) by simp
    have 2: "\<not> str_in ''->'' cs" using Cons.prems(2) Cons by simp
    have 3: "a = c" "as @ ''->'' @ p = cs @ ''->'' @ p'" using Cons.prems(3) Cons by simp_all
    show ?thesis using Cons.IH [OF 1 2 3(2)] 3(1) Cons by simp
  qed
qed

lemma error_key_inj:
  assumes "\<forall>pg\<in>set pairs. \<not> str_in ''->'' (fst pg) \<and> \<not> str_in ''->'' (snd pg)"
  shows "inj_on error_key_of (set pairs)"
proof (rule inj_onI)
  fix x y
  assume x: "x \<in> set pairs" and y: "y \<in> set pairs" and e: "error_key_of x = error_key_of y"
  obtain p g where xp: "x = (p, g)" by (cases x)
  obtain p' g' where yp: "y = (p', g')" by (cases y)
  have "\<not> str_in ''->'' g" "\<not> str_in ''->'' g'"
    using assms x y xp yp by auto
  moreover have "g @ ''->'' @ p = g' @ ''->'' @ p'"
    using e by (simp add: error_key_of_def xp yp)
  ultimately have "g = g' \<and> p = p'" by (rule key_split)
  then show "x = y" by (simp add: xp yp)
qed

lemma remdups_map_inj_on:
  "inj_on f (set xs) \<Longrightarrow> remdups (map f xs) = map f (remdups xs)"
proof (induction xs)
  case Nil
  show ?case by simp
next
  case (Cons a xs)
  have i: "inj_on f (set xs)" using Cons.prems by (simp add: inj_on_def)
  have "f a \<in> f ` set xs \<longleftrightarrow> a \<in> set xs"
    using Cons.prems by (auto simp: inj_on_def)
  then show ?case using Cons.IH [OF i] by simp
qed

lemma first_seen_map:
  "inj_on f (set xs) \<Longrightarrow> first_seen (map f xs) = map f (first_seen xs)"
  using remdups_map_inj_on [of f "rev xs"] by (simp add: first_seen_def rev_map)

lemma count_list_map:
  "inj_on f (set xs \<union> {k}) \<Longrightarrow> count_list (map f xs) (f k) = count_list xs k"
proof (induction xs)
  case Nil
  show ?case by simp
next
  case (Cons a xs)
  have i: "inj_on f (set xs \<union> {k})" using Cons.prems by (simp add: inj_on_def)
  have "f a = f k \<longleftrightarrow> a = k" using Cons.prems by (auto simp: inj_on_def)
  then show ?case using Cons.IH [OF i] by simp
qed

lemma tally_map:
  assumes "inj_on f (set xs)"
  shows "tally (map f xs) = map (\<lambda>(k, c). (f k, c)) (tally xs)"
proof -
  have "count_list (map f xs) (f k) = count_list xs k" if "k \<in> set xs" for k
  proof -
    have "set xs \<union> {k} = set xs" using that by auto
    then show ?thesis using assms count_list_map [of f xs k] by simp
  qed
  then have "map (\<lambda>k. (f k, int (count_list (map f xs) (f k)))) (first_seen xs)
      = map (\<lambda>k. (f k, int (count_list xs k))) (first_seen xs)"
    by (simp add: first_seen_def)
  then show ?thesis
    by (simp add: tally_def first_seen_map [OF assms] comp_def)
qed

lemma top_errors_tally:
  "top_phoneme_errors (generate_error_analysis predictions ground_truths) =
     take 10 (sort_key (\<lambda>x. - snd x) (tally (map error_key_of (mismatches predictions ground_truths))))"
  by (simp add: generate_error_analysis_def Let_def phoneme_errors_tally)

text \<open>
  C9.  Whatever the prediction and ground-truth records are, the analysis returns the
  four categories \<open>th_errors\<close>, \<open>r_errors\<close>, \<open>final_consonant_errors\<close> and
  \<open>vowel_length_errors\<close>, each with the count \<open>0\<close>.
\<close>

theorem vietnamese_specific_all_zero:
  "vietnamese_specific (generate_error_analysis predictions ground_truths) =
     [(''th_errors'', 0), (''r_errors'', 0),
      (''final_consonant_errors'', 0), (''vowel_length_errors'', 0)]"
  by (simp add: generate_error_analysis_def Let_def)

text \<open>
  C7.  A mismatch is counted under the string \<open>g->p\<close>.  Where no symbol of a mismatch
  contains the separator \<open>->\<close>, as in a phoneme inventory, the string determines the pair
  and the table of counts is the table of the mismatching pairs: each pair, under its
  key, with the number of positions at which it occurs, the pairs in first-seen order.
  The analysis returns \<open>min 10\<close> of the entries of the table; every returned entry is an
  entry of the table; the counts descend; for every count, the returned entries with that
  count are an initial part of the table entries with that count, that is, ties stay in
  first-seen order; and no entry left out has a larger count than an entry returned.
\<close>

theorem top_errors_ranked:
  "(let pairs = mismatches predictions ground_truths;
        table = tally (map error_key_of pairs);
        ranked = top_phoneme_errors (generate_error_analysis predictions ground_truths)
    in ((\<forall>pg\<in>set pairs. \<not> str_in ''->'' (fst pg) \<and> \<not> str_in ''->'' (snd pg)) \<longrightarrow>
          inj_on error_key_of (set pairs)
          \<and> table = map (\<lambda>(pg, c). (error_key_of pg, c)) (tally pairs))
       \<and> length ranked = min 10 (length table)
       \<and> set ranked \<subseteq> set table
       \<and> sorted_wrt (\<lambda>x y. snd y \<le> snd x) ranked
       \<and> (\<forall>c. \<exists>n. filter (\<lambda>x. snd x = c) ranked = take n (filter (\<lambda>x. snd x = c) table))
       \<and> (\<forall>x\<in>set table. x \<notin> set ranked \<longrightarrow> (\<forall>y\<in>set ranked. snd x \<le> snd y)))"
proof -
  define pairs where "pairs = mismatches predictions ground_truths"
  define table where "table = tally (map error_key_of pairs)"
  define ranked where "ranked = top_phoneme_errors (generate_error_analysis predictions ground_truths)"

  let ?f = "\<lambda>x :: string \<times> int. - snd x"
  let ?S = "sort_key ?f table"
  have keyed: "(\<forall>pg\<in>set pairs. \<not> str_in ''->'' (fst pg) \<and> \<not> str_in ''->'' (snd pg)) \<longrightarrow>
      inj_on error_key_of (set pairs)
      \<and> table = map (\<lambda>(pg, c). (error_key_of pg, c)) (tally pairs)"
  proof
    assume "\<forall>pg\<in>set pairs. \<not> str_in ''->'' (fst pg) \<and> \<not> str_in ''->'' (snd pg)"
    then have i: "inj_on error_key_of (set pairs)" by (rule error_key_inj)
    show "inj_on error_key_of (set pairs)
        \<and> table = map (\<lambda>(pg, c). (error_key_of pg, c)) (tally pairs)"
      unfolding table_def using i tally_map [OF i] by simp
  qed
  have rk: "ranked = take 10 ?S"
    unfolding ranked_def table_def pairs_def by (rule top_errors_tally)
  have len: "length ranked = min 10 (length table)"
    by (simp add: rk min.commute)
  have sub: "set ranked \<subseteq> set table"
    using set_take_subset [of 10 ?S] by (simp add: rk)
  have srt: "sorted (map ?f ?S)"
    by (rule sorted_sort_key)
  have "sorted (take 10 (map ?f ?S))"
    using srt by (rule sorted_wrt_take)
  then have "sorted (map ?f (take 10 ?S))"
    by (simp only: take_map)
  then have desc: "sorted_wrt (\<lambda>x y. snd y \<le> snd x) ranked"
    by (simp add: rk sorted_map)
  have ties: "\<forall>c. \<exists>n. filter (\<lambda>x. snd x = c) ranked = take n (filter (\<lambda>x. snd x = c) table)"
  proof
    fix c
    have eq: "(\<lambda>x :: string \<times> int. snd x = c) = (\<lambda>x. ?f x = - c)"
      by auto
    have "filter (\<lambda>x. snd x = c) ?S = filter (\<lambda>x. snd x = c) table"
      unfolding eq by (rule sort_key_stable)
    then show "\<exists>n. filter (\<lambda>x. snd x = c) ranked = take n (filter (\<lambda>x. snd x = c) table)"
      using filter_take_prefix [of "\<lambda>x. snd x = c" 10 ?S] by (simp add: rk)
  qed
  have largest: "\<forall>x\<in>set table. x \<notin> set ranked \<longrightarrow> (\<forall>y\<in>set ranked. snd x \<le> snd y)"
  proof (intro ballI impI)
    fix x y
    assume x: "x \<in> set table" "x \<notin> set ranked" and y: "y \<in> set ranked"
    have "set ?S = set (take 10 ?S) \<union> set (drop 10 ?S)"
      by (metis append_take_drop_id set_append)
    then have xd: "x \<in> set (drop 10 ?S)"
      using x by (simp add: rk)
    have "sorted (map ?f (take 10 ?S) @ map ?f (drop 10 ?S))"
      using srt by (simp add: map_append [symmetric] del: map_append)
    then have "\<forall>a\<in>set (map ?f (take 10 ?S)). \<forall>b\<in>set (map ?f (drop 10 ?S)). a \<le> b"
      by (simp add: sorted_append)
    then have "?f y \<le> ?f x"
      using xd y by (simp add: rk)
    then show "snd x \<le> snd y" by simp
  qed
  show ?thesis
    unfolding Let_def pairs_def [symmetric] table_def [symmetric] ranked_def [symmetric]
    using keyed len sub desc ties largest by blast
qed

lemma mismatches_sample:
  "mismatches
      [[''phonemes'' \<mapsto> [''T'', ''L'', ''T'', ''AE'']]]
      [[''phonemes'' \<mapsto> [''TH'', ''R'', ''TH'', ''AE'', ''T'']]]
   = [(''T'', ''TH''), (''L'', ''R''), (''T'', ''TH'')]"
  by (simp add: mismatches_def get_phonemes_def)

lemma tally_sample:
  "tally [(''T'', ''TH''), (''L'', ''R''), (''T'', ''TH'')]
   = [((''T'', ''TH''), 2), ((''L'', ''R''), 1)]"
  by (simp add: tally_def first_seen_def)

lemma separator_free_sample:
  "\<forall>pg\<in>set [(''T'', ''TH''), (''L'', ''R''), (''T'', ''TH'')].
     \<not> str_in ''->'' (fst pg) \<and> \<not> str_in ''->'' (snd pg)"
  by simp

theorem top_errors_ranked_witness:
  "mismatches
      [[''phonemes'' \<mapsto> [''T'', ''L'', ''T'', ''AE'']]]
      [[''phonemes'' \<mapsto> [''TH'', ''R'', ''TH'', ''AE'', ''T'']]]
     = [(''T'', ''TH''), (''L'', ''R''), (''T'', ''TH'')]
   \<and> \<not> str_in ''->'' ''T'' \<and> \<not> str_in ''->'' ''TH''
   \<and> \<not> str_in ''->'' ''L'' \<and> \<not> str_in ''->'' ''R''
   \<and> tally (mismatches
        [[''phonemes'' \<mapsto> [''T'', ''L'', ''T'', ''AE'']]]
        [[''phonemes'' \<mapsto> [''TH'', ''R'', ''TH'', ''AE'', ''T'']]])
      = [((''T'', ''TH''), 2), ((''L'', ''R''), 1)]
   \<and> length (top_phoneme_errors (generate_error_analysis
        [[''phonemes'' \<mapsto> [''T'', ''L'', ''T'', ''AE'']]]
        [[''phonemes'' \<mapsto> [''TH'', ''R'', ''TH'', ''AE'', ''T'']]])) = 2
   \<and> set (top_phoneme_errors (generate_error_analysis
        [[''phonemes'' \<mapsto> [''T'', ''L'', ''T'', ''AE'']]]
        [[''phonemes'' \<mapsto> [''TH'', ''R'', ''TH'', ''AE'', ''T'']]]))
       \<subseteq> {(''TH->T'', 2), (''R->L'', 1)}"
proof -
  note t = top_errors_ranked
    [of "[[''phonemes'' \<mapsto> [''T'', ''L'', ''T'', ''AE'']]]"
        "[[''phonemes'' \<mapsto> [''TH'', ''R'', ''TH'', ''AE'', ''T'']]]",
     unfolded Let_def mismatches_sample]
  have keyed: "tally (map error_key_of [(''T'', ''TH''), (''L'', ''R''), (''T'', ''TH'')])
      = map (\<lambda>(pg, c). (error_key_of pg, c)) (tally [(''T'', ''TH''), (''L'', ''R''), (''T'', ''TH'')])"
    using t [THEN conjunct1] separator_free_sample by blast
  have table: "tally (map error_key_of [(''T'', ''TH''), (''L'', ''R''), (''T'', ''TH'')])
      = [(''TH->T'', 2), (''R->L'', 1)]"
    unfolding keyed tally_sample by (simp add: error_key_of_def)
  note len = t [THEN conjunct2, THEN conjunct1, unfolded table]
  note sub = t [THEN conjunct2, THEN conjunct2, THEN conjunct1, unfolded table]
  show ?thesis
    unfolding mismatches_sample
    using tally_sample len sub by simp
qed

end
